theory Spec2Isabelle
  imports Main "HOL-Library.Word"
begin

unbundle bit_operations_syntax

section \<open>Custodian (custodian.c, allocator.c)\<close>

subsection \<open>Memory, allocator calls and the observable trace\<close>

text \<open>
  Pointers and \<open>uintptr_t\<close> are 64-bit words, \<open>NULL\<close> is 0. The sizes are those of an
  LP64 target: a \<open>CustodianEntry\<close> is one pointer, a \<open>Custodian\<close> three, a
  \<open>CustodianResource\<close> two.
\<close>

type_synonym addr = "64 word"
type_synonym size_t = "64 word"

definition sizeof_CustodianEntry :: size_t where "sizeof_CustodianEntry = 8"
definition sizeof_Custodian :: size_t where "sizeof_Custodian = 24"
definition sizeof_CustodianResource :: size_t where "sizeof_CustodianResource = 16"

record Custodian =
  stack :: addr
  a :: addr
  parent :: addr

record CustodianResource =
  ptr :: addr
  cleanup :: addr

text \<open>
  The memory holds the three kinds of object the custodian reads and writes, each at
  the address of its first byte: the header \<open>CustodianEntry\<close> of a block (its
  \<open>prev\<close> field, tag included), and the payload that follows the header at
  \<open>entry + sizeof(CustodianEntry)\<close>. The bytes handed out by \<open>custodian_alloc\<close>
  belong to the caller and are not tracked.
\<close>

datatype cell =
    EntryCell addr
  | ResourceCell CustodianResource
  | CustodianCell Custodian

text \<open>
  What the outside world sees: the calls through the allocator's function pointers and
  the calls of cleanup functions, in order. The first component of an allocator event
  is the \<open>Allocator *\<close> the call went through.
\<close>

datatype event =
    EvAlloc addr size_t addr
  | EvFree addr addr
  | EvCleanup addr addr

text \<open>
  The allocator is injected (a struct of function pointers), so its behaviour is an
  input: \<open>responses\<close> lists what the coming \<open>alloc\<close> calls return, 0 for "no
  memory"; an exhausted list keeps answering 0.
\<close>

record state =
  mem :: "addr \<rightharpoonup> cell"
  responses :: "addr list"
  trace :: "event list"

datatype error = MemFault | OutOfFuel | Abort state

definition allocator_alloc :: "state \<Rightarrow> addr \<Rightarrow> size_t \<Rightarrow> addr \<times> state" where
  "allocator_alloc s al sz =
     (case responses s of
        [] \<Rightarrow> (0, s\<lparr>trace := trace s @ [EvAlloc al sz 0]\<rparr>)
      | p # ps \<Rightarrow> (p, s\<lparr>responses := ps, trace := trace s @ [EvAlloc al sz p]\<rparr>))"

text \<open>
  Releasing a block ends the lifetime of the header and of the payload object in it:
  later reads of either fault.
\<close>

definition allocator_free :: "state \<Rightarrow> addr \<Rightarrow> addr \<Rightarrow> state" where
  "allocator_free s al p =
     s\<lparr>mem := (mem s)(p := None, p + sizeof_CustodianEntry := None),
       trace := trace s @ [EvFree al p]\<rparr>"

text \<open>
  A cleanup function is foreign code. It is trusted not to touch custodian memory and
  not to call back into the custodian; its call is recorded with its argument.
\<close>

definition call_cleanup :: "state \<Rightarrow> addr \<Rightarrow> addr \<Rightarrow> state" where
  "call_cleanup s f arg = s\<lparr>trace := trace s @ [EvCleanup f arg]\<rparr>"

definition read_entry :: "state \<Rightarrow> addr \<Rightarrow> addr option" where
  "read_entry s p = (case mem s p of Some (EntryCell prev) \<Rightarrow> Some prev | _ \<Rightarrow> None)"

definition read_res :: "state \<Rightarrow> addr \<Rightarrow> CustodianResource option" where
  "read_res s p = (case mem s p of Some (ResourceCell r) \<Rightarrow> Some r | _ \<Rightarrow> None)"

definition read_cust :: "state \<Rightarrow> addr \<Rightarrow> Custodian option" where
  "read_cust s p = (case mem s p of Some (CustodianCell C) \<Rightarrow> Some C | _ \<Rightarrow> None)"

definition write_cell :: "state \<Rightarrow> addr \<Rightarrow> cell \<Rightarrow> state" where
  "write_cell s p v = s\<lparr>mem := (mem s)(p \<mapsto> v)\<rparr>"

text \<open>The assignment \<open>c->stack = v\<close>: a write to one field of an existing struct.\<close>

definition set_stack :: "state \<Rightarrow> addr \<Rightarrow> addr \<Rightarrow> state option" where
  "set_stack s c v =
     (case read_cust s c of
        None \<Rightarrow> None
      | Some C \<Rightarrow> Some (write_cell s c (CustodianCell (C\<lparr>stack := v\<rparr>))))"

subsection \<open>Tagged pointers\<close>

definition TAG_MASK :: addr where "TAG_MASK = 3"
definition PTR_MASK :: addr where "PTR_MASK = NOT 3"
definition TAG_ALLOCATION :: addr where "TAG_ALLOCATION = 0"
definition TAG_RESOURCE :: addr where "TAG_RESOURCE = 1"
definition TAG_CUSTODIAN :: addr where "TAG_CUSTODIAN = 2"

definition ptr_tag :: "addr \<Rightarrow> addr \<Rightarrow> addr" where
  "ptr_tag p tag = p OR (tag AND TAG_MASK)"

definition ptr_untag :: "addr \<Rightarrow> addr" where
  "ptr_untag tagged_ptr = tagged_ptr AND PTR_MASK"

definition ptr_tag_get :: "addr \<Rightarrow> addr" where
  "ptr_tag_get tagged_ptr = tagged_ptr AND TAG_MASK"

subsection \<open>The operations\<close>

definition custodian_init :: "state \<Rightarrow> addr \<Rightarrow> addr \<Rightarrow> addr \<Rightarrow> state" where
  "custodian_init s c par al =
     write_cell s c (CustodianCell \<lparr>stack = 0, a = al, parent = par\<rparr>)"

text \<open>
  \<open>custodian_shutdown\<close> is a loop over the entries with a recursive call for a child
  scope. Both are bounded by fuel: on a cyclic stack the C code would not return.
  A tag of 3 matches no \<open>case\<close> of the \<open>switch\<close>: the entry is skipped.
\<close>

fun custodian_shutdown :: "nat \<Rightarrow> state \<Rightarrow> addr \<Rightarrow> error + state"
  and shutdown_loop :: "nat \<Rightarrow> state \<Rightarrow> addr \<Rightarrow> addr \<Rightarrow> error + state"
where
  "custodian_shutdown 0 s c = Inl OutOfFuel"
| "custodian_shutdown (Suc n) s c =
     (case read_cust s c of
        None \<Rightarrow> Inl MemFault
      | Some C \<Rightarrow>
          (case shutdown_loop n s (a C) (stack C) of
             Inl e \<Rightarrow> Inl e
           | Inr s' \<Rightarrow>
               (case set_stack s' c 0 of
                  None \<Rightarrow> Inl MemFault
                | Some s'' \<Rightarrow> Inr s'')))"
| "shutdown_loop 0 s al entry = Inl OutOfFuel"
| "shutdown_loop (Suc n) s al entry =
     (if entry = 0 then Inr s
      else
        (case read_entry s entry of
           None \<Rightarrow> Inl MemFault
         | Some tagged \<Rightarrow>
             (let prev = ptr_untag tagged;
                  tag = ptr_tag_get tagged;
                  data = entry + sizeof_CustodianEntry
              in if tag = TAG_ALLOCATION then
                   shutdown_loop n (allocator_free s al entry) al prev
                 else if tag = TAG_RESOURCE then
                   (case read_res s data of
                      None \<Rightarrow> Inl MemFault
                    | Some res \<Rightarrow>
                        shutdown_loop n
                          (allocator_free
                             (if cleanup res \<noteq> 0 then call_cleanup s (cleanup res) (ptr res)
                              else s)
                             al entry)
                          al prev)
                 else if tag = TAG_CUSTODIAN then
                   (case custodian_shutdown n s data of
                      Inl e \<Rightarrow> Inl e
                    | Inr s' \<Rightarrow> shutdown_loop n (allocator_free s' al entry) al prev)
                 else shutdown_loop n s al prev)))"

text \<open>The walk \<open>while (cur->parent != NULL) cur = cur->parent\<close> of \<open>custodian_abort\<close>.\<close>

fun walk_to_root :: "nat \<Rightarrow> state \<Rightarrow> addr \<Rightarrow> error + addr" where
  "walk_to_root 0 s cur = Inl OutOfFuel"
| "walk_to_root (Suc n) s cur =
     (case read_cust s cur of
        None \<Rightarrow> Inl MemFault
      | Some C \<Rightarrow> if parent C \<noteq> 0 then walk_to_root n s (parent C) else Inr cur)"

text \<open>
  \<open>custodian_abort\<close> ends in \<open>abort()\<close>, which terminates the process: the result is
  the error \<open>Abort\<close> carrying the state the process died in.
\<close>

definition custodian_abort :: "nat \<Rightarrow> state \<Rightarrow> addr \<Rightarrow> error + state" where
  "custodian_abort fuel s c =
     (case walk_to_root fuel s c of
        Inl e \<Rightarrow> Inl e
      | Inr cur \<Rightarrow>
          (case custodian_shutdown fuel s cur of
             Inl e \<Rightarrow> Inl e
           | Inr s' \<Rightarrow> Inl (Abort s')))"

definition custodian_alloc :: "nat \<Rightarrow> state \<Rightarrow> addr \<Rightarrow> size_t \<Rightarrow> error + addr \<times> state" where
  "custodian_alloc fuel s c sz =
     (case read_cust s c of
        None \<Rightarrow> Inl MemFault
      | Some C \<Rightarrow>
          (case allocator_alloc s (a C) sz of
             (entry, s1) \<Rightarrow>
               if entry = 0 then
                 (case custodian_abort fuel s1 c of
                    Inl e \<Rightarrow> Inl e
                  | Inr s2 \<Rightarrow> Inr (0, s2))
               else
                 (case read_cust s1 c of
                    None \<Rightarrow> Inl MemFault
                  | Some C1 \<Rightarrow>
                      (case set_stack
                              (write_cell s1 entry
                                 (EntryCell (ptr_tag (stack C1) TAG_ALLOCATION)))
                              c entry of
                         None \<Rightarrow> Inl MemFault
                       | Some s2 \<Rightarrow> Inr (entry + sizeof_CustodianEntry, s2)))))"

definition custodian_child_create :: "nat \<Rightarrow> state \<Rightarrow> addr \<Rightarrow> error + addr \<times> state" where
  "custodian_child_create fuel s par =
     (case read_cust s par of
        None \<Rightarrow> Inl MemFault
      | Some P \<Rightarrow>
          (case allocator_alloc s (a P) (sizeof_CustodianEntry + sizeof_Custodian) of
             (entry, s1) \<Rightarrow>
               if entry = 0 then
                 (case custodian_abort fuel s1 par of
                    Inl e \<Rightarrow> Inl e
                  | Inr s2 \<Rightarrow> Inr (0, s2))
               else
                 (let child = entry + sizeof_CustodianEntry in
                  case read_cust s1 par of
                    None \<Rightarrow> Inl MemFault
                  | Some P1 \<Rightarrow>
                      (let s2 = custodian_init s1 child par (a P1) in
                       case read_cust s2 par of
                         None \<Rightarrow> Inl MemFault
                       | Some P2 \<Rightarrow>
                           (case set_stack
                                   (write_cell s2 entry
                                      (EntryCell (ptr_tag (stack P2) TAG_CUSTODIAN)))
                                   par entry of
                              None \<Rightarrow> Inl MemFault
                            | Some s3 \<Rightarrow> Inr (child, s3))))))"

definition custodian_defer :: "nat \<Rightarrow> state \<Rightarrow> addr \<Rightarrow> addr \<Rightarrow> addr \<Rightarrow> error + state" where
  "custodian_defer fuel s c p f =
     (case read_cust s c of
        None \<Rightarrow> Inl MemFault
      | Some C \<Rightarrow>
          (case allocator_alloc s (a C) (sizeof_CustodianEntry + sizeof_CustodianResource) of
             (entry, s1) \<Rightarrow>
               if entry = 0 then custodian_abort fuel s1 c
               else
                 (let s2 = write_cell s1 (entry + sizeof_CustodianEntry)
                             (ResourceCell \<lparr>ptr = p, cleanup = f\<rparr>)
                  in case read_cust s2 c of
                       None \<Rightarrow> Inl MemFault
                     | Some C2 \<Rightarrow>
                         (case set_stack
                                 (write_cell s2 entry
                                    (EntryCell (ptr_tag (stack C2) TAG_RESOURCE)))
                                 c entry of
                            None \<Rightarrow> Inl MemFault
                          | Some s3 \<Rightarrow> Inr s3))))"

subsection \<open>The tree a custodian stands for\<close>

text \<open>
  The abstract view of a stack: its entries from the top, each with the address of its
  block. A deferred resource carries the handle and the cleanup function, a child
  scope the entries of the embedded custodian.
\<close>

datatype aentry =
    Allocation addr
  | Resource addr addr addr
  | ChildScope addr "aentry list"

fun entry_addr :: "aentry \<Rightarrow> addr" where
  "entry_addr (Allocation p) = p"
| "entry_addr (Resource p h f) = p"
| "entry_addr (ChildScope p ces) = p"

fun entry_tag :: "aentry \<Rightarrow> addr" where
  "entry_tag (Allocation p) = TAG_ALLOCATION"
| "entry_tag (Resource p h f) = TAG_RESOURCE"
| "entry_tag (ChildScope p ces) = TAG_CUSTODIAN"

text \<open>The addresses an entry occupies: header and payload, and those of a child's entries.\<close>

fun cells :: "aentry \<Rightarrow> addr list" where
  "cells (Allocation p) = [p, p + sizeof_CustodianEntry]"
| "cells (Resource p h f) = [p, p + sizeof_CustodianEntry]"
| "cells (ChildScope p ces) = p # (p + sizeof_CustodianEntry) # concat (map cells ces)"

definition cells_list :: "aentry list \<Rightarrow> addr list" where
  "cells_list es = concat (map cells es)"

text \<open>The addresses of the custodians embedded in an entry, at any depth.\<close>

fun child_custs :: "aentry \<Rightarrow> addr list" where
  "child_custs (Allocation p) = []"
| "child_custs (Resource p h f) = []"
| "child_custs (ChildScope p ces) =
     (p + sizeof_CustodianEntry) # concat (map child_custs ces)"

definition custs_of :: "addr \<Rightarrow> aentry list \<Rightarrow> addr list" where
  "custs_of c es = c # concat (map child_custs es)"

text \<open>
  The events that releasing one entry consists of, and those of a whole stack from the
  top down.
\<close>

fun release_events :: "addr \<Rightarrow> aentry \<Rightarrow> event list" where
  "release_events al (Allocation p) = [EvFree al p]"
| "release_events al (Resource p h f) =
     (if f \<noteq> 0 then [EvCleanup f h] else []) @ [EvFree al p]"
| "release_events al (ChildScope p ces) =
     concat (map (release_events al) ces) @ [EvFree al p]"

definition release_all :: "addr \<Rightarrow> aentry list \<Rightarrow> event list" where
  "release_all al es = concat (map (release_events al) es)"

text \<open>Fuel that suffices for the loop over a stack.\<close>

fun fuel_entry :: "aentry \<Rightarrow> nat" where
  "fuel_entry (Allocation p) = 1"
| "fuel_entry (Resource p h f) = 1"
| "fuel_entry (ChildScope p ces) = 3 + sum_list (map fuel_entry ces)"

definition fuel_stack :: "aentry list \<Rightarrow> nat" where
  "fuel_stack es = 1 + sum_list (map fuel_entry es)"

text \<open>
  \<open>repr_stack s al owner tp es\<close>: in memory \<open>s\<close> the chain of entries that starts at
  \<open>tp\<close> is the stack \<open>es\<close> of the custodian at \<open>owner\<close> with allocator \<open>al\<close>. Blocks
  are 4-aligned, which the tag bits need; a child inherits the allocator and points
  back to its owner.
\<close>

fun repr_stack :: "state \<Rightarrow> addr \<Rightarrow> addr \<Rightarrow> addr \<Rightarrow> aentry list \<Rightarrow> bool"
  and repr_payload :: "state \<Rightarrow> addr \<Rightarrow> addr \<Rightarrow> aentry \<Rightarrow> bool"
where
  "repr_stack s al owner tp [] = (tp = 0)"
| "repr_stack s al owner tp (e # es) =
     (tp \<noteq> 0 \<and> tp = entry_addr e \<and> tp AND 3 = 0 \<and>
      (case read_entry s tp of
         None \<Rightarrow> False
       | Some tagged \<Rightarrow>
           ptr_tag_get tagged = entry_tag e \<and> repr_payload s al owner e \<and>
           repr_stack s al owner (ptr_untag tagged) es))"
| "repr_payload s al owner (Allocation p) = True"
| "repr_payload s al owner (Resource p h f) =
     (read_res s (p + sizeof_CustodianEntry) = Some \<lparr>ptr = h, cleanup = f\<rparr>)"
| "repr_payload s al owner (ChildScope p ces) =
     (p + sizeof_CustodianEntry \<noteq> 0 \<and>
      (case read_cust s (p + sizeof_CustodianEntry) of
         None \<Rightarrow> False
       | Some C \<Rightarrow>
           a C = al \<and> parent C = owner \<and>
           repr_stack s al (p + sizeof_CustodianEntry) (stack C) ces))"

text \<open>
  A well-formed custodian: its stack is represented in memory, no two objects of it
  share an address, and the custodian itself is not one of them.
\<close>

definition wf_cust :: "state \<Rightarrow> addr \<Rightarrow> aentry list \<Rightarrow> bool" where
  "wf_cust s c es =
     (c \<noteq> 0 \<and> distinct (cells_list es) \<and> c \<notin> set (cells_list es) \<and>
      (case read_cust s c of
         None \<Rightarrow> False
       | Some C \<Rightarrow> repr_stack s (a C) c (stack C) es))"

text \<open>The state in which the entries \<open>es\<close> have been released through allocator \<open>al\<close>.\<close>

definition released :: "state \<Rightarrow> addr \<Rightarrow> aentry list \<Rightarrow> state" where
  "released s al es =
     s\<lparr>mem := (\<lambda>x. if x \<in> set (cells_list es) then None else mem s x),
       trace := trace s @ release_all al es\<rparr>"

text \<open>
  What is expected of a block the allocator returns: not \<open>NULL\<close>, 4-aligned, not
  wrapping around the address space, and apart from the custodian and from the
  addresses in use.
\<close>

definition fresh_block :: "addr \<Rightarrow> addr list \<Rightarrow> addr \<Rightarrow> bool" where
  "fresh_block c used p =
     (p \<noteq> 0 \<and> p AND 3 = 0 \<and> p + sizeof_CustodianEntry \<noteq> 0 \<and>
      p \<noteq> c \<and> p + sizeof_CustodianEntry \<noteq> c \<and>
      p \<notin> set used \<and> p + sizeof_CustodianEntry \<notin> set used)"

subsection \<open>Clients and examples\<close>

text \<open>
  A client that pushes a sequence of entries onto one node: each push is a call of
  \<open>custodian_alloc\<close>, \<open>custodian_defer\<close> or \<open>custodian_child_create\<close>, and
  \<open>push_entry\<close> is the entry the call leaves on the stack when the allocator returns
  the block \<open>p\<close>.
\<close>

datatype push = PushAlloc size_t | PushDefer addr addr | PushChild

fun push_entry :: "push \<Rightarrow> addr \<Rightarrow> aentry" where
  "push_entry (PushAlloc sz) p = Allocation p"
| "push_entry (PushDefer h f) p = Resource p h f"
| "push_entry PushChild p = ChildScope p []"

fun do_push :: "nat \<Rightarrow> state \<Rightarrow> addr \<Rightarrow> push \<Rightarrow> error + state" where
  "do_push n s c (PushAlloc sz) =
     (case custodian_alloc n s c sz of Inl e \<Rightarrow> Inl e | Inr (q, s') \<Rightarrow> Inr s')"
| "do_push n s c (PushDefer h f) = custodian_defer n s c h f"
| "do_push n s c PushChild =
     (case custodian_child_create n s c of Inl e \<Rightarrow> Inl e | Inr (q, s') \<Rightarrow> Inr s')"

fun do_pushes :: "nat \<Rightarrow> state \<Rightarrow> addr \<Rightarrow> push list \<Rightarrow> error + state" where
  "do_pushes n s c [] = Inr s"
| "do_pushes n s c (x # xs) =
     (case do_push n s c x of Inl e \<Rightarrow> Inl e | Inr s' \<Rightarrow> do_pushes n s' c xs)"

fun fresh_blocks :: "addr \<Rightarrow> addr list \<Rightarrow> addr list \<Rightarrow> bool" where
  "fresh_blocks c used [] = True"
| "fresh_blocks c used (p # ps) =
     (fresh_block c used p \<and> fresh_blocks c (p # (p + sizeof_CustodianEntry) # used) ps)"

text \<open>
  \<open>custodians_kept s s'\<close>: every custodian struct of \<open>s'\<close> was one in \<open>s\<close>, with the
  same allocator and the same parent.
\<close>

definition custodians_kept :: "state \<Rightarrow> state \<Rightarrow> bool" where
  "custodians_kept s s' =
     (\<forall>x C'. read_cust s' x = Some C' \<longrightarrow>
        (\<exists>C. read_cust s x = Some C \<and> a C' = a C \<and> parent C' = parent C))"

text \<open>
  The calls that \<open>test_program\<close> in lol.c makes on its custodian \<open>c\<close> before it
  calls \<open>custodian_shutdown\<close>.
\<close>

definition test_program_pushes :: "nat \<Rightarrow> state \<Rightarrow> addr \<Rightarrow> error + state" where
  "test_program_pushes n s c =
     (case custodian_alloc n s c 100 of Inl e \<Rightarrow> Inl e | Inr (p1, s1) \<Rightarrow>
     (case custodian_defer n s1 c 0 0x500 of Inl e \<Rightarrow> Inl e | Inr s2 \<Rightarrow>
     (case custodian_alloc n s2 c 200 of Inl e \<Rightarrow> Inl e | Inr (p3, s3) \<Rightarrow>
     (case custodian_child_create n s3 c of Inl e \<Rightarrow> Inl e | Inr (c2, s4) \<Rightarrow>
     (case custodian_alloc n s4 c2 300 of Inl e \<Rightarrow> Inl e | Inr (p5, s5) \<Rightarrow>
     (case custodian_alloc n s5 c2 20 of Inl e \<Rightarrow> Inl e | Inr (p6, s6) \<Rightarrow>
     (case custodian_alloc n s6 c 50 of Inl e \<Rightarrow> Inl e | Inr (p7, s7) \<Rightarrow> Inr s7)))))))"

text \<open>
  The memory these calls build when the root custodian is at \<open>0x100\<close>, its allocator
  at \<open>0x80\<close>, the cleanup function \<open>cleaner\<close> at \<open>0x500\<close>, and the allocator returns
  the blocks \<open>0x1000\<close>, \<open>0x2000\<close>, ... in this order; the child custodian lives in the
  block at \<open>0x4000\<close>. Three more blocks are to come.
\<close>

definition example_state :: state where
  "example_state =
     \<lparr>mem = [0x100 \<mapsto> CustodianCell \<lparr>stack = 0x7000, a = 0x80, parent = 0\<rparr>,
             0x1000 \<mapsto> EntryCell 0,
             0x2000 \<mapsto> EntryCell 0x1001,
             0x2008 \<mapsto> ResourceCell \<lparr>ptr = 0, cleanup = 0x500\<rparr>,
             0x3000 \<mapsto> EntryCell 0x2000,
             0x4000 \<mapsto> EntryCell 0x3002,
             0x4008 \<mapsto> CustodianCell \<lparr>stack = 0x6000, a = 0x80, parent = 0x100\<rparr>,
             0x5000 \<mapsto> EntryCell 0,
             0x6000 \<mapsto> EntryCell 0x5000,
             0x7000 \<mapsto> EntryCell 0x4000],
      responses = [0x8000, 0x9000, 0xA000],
      trace = []\<rparr>"

definition example_child :: "aentry list" where
  "example_child = [Allocation 0x6000, Allocation 0x5000]"

definition example_lower :: "aentry list" where
  "example_lower = [Allocation 0x3000, Resource 0x2000 0 0x500, Allocation 0x1000]"

definition example_entries :: "aentry list" where
  "example_entries = Allocation 0x7000 # ChildScope 0x4000 example_child # example_lower"

text \<open>The same custodian with an allocator that has no memory left.\<close>

definition example_exhausted :: state where
  "example_exhausted = example_state\<lparr>responses := []\<rparr>"

section \<open>Isolated test runner (lol.c)\<close>

text \<open>
  \<open>main\<close> is one generated block per test, all alike up to the index and the display
  string, which are the parameters \<open>i\<close> and \<open>display\<close> here. The macros of
  \<open>sys/wait.h\<close> and the number of \<open>SIGALRM\<close> belong to the platform and are
  parameters too.
\<close>

record wait_macros =
  WIFEXITED :: "int \<Rightarrow> bool"
  WEXITSTATUS :: "int \<Rightarrow> int"
  WIFSIGNALED :: "int \<Rightarrow> bool"
  WTERMSIG :: "int \<Rightarrow> int"
  SIGALRM :: int

definition newline :: char where "newline = CHR 0x0A"

text \<open>\<open>printf("%d", n)\<close>.\<close>

function show_nat :: "nat \<Rightarrow> string" where
  "show_nat n =
     (if n < 10 then [''0123456789'' ! n]
      else show_nat (n div 10) @ [''0123456789'' ! (n mod 10)])"
  by pat_completeness auto
termination
  by (relation "measure id") auto

declare show_nat.simps [simp del]

definition show_int :: "int \<Rightarrow> string" where
  "show_int i = (if i < 0 then ''-'' @ show_nat (nat (- i)) else show_nat (nat i))"

definition BUFLEN :: nat where "BUFLEN = 1024"

text \<open>
  \<open>fgets(buf, n, fp)\<close> on the unread rest of the file: at most \<open>n - 1\<close> bytes, up to
  and including the first newline; \<open>NULL\<close> (here \<open>None\<close>) at end of file.
\<close>

fun fgets_chunk :: "nat \<Rightarrow> string \<Rightarrow> string \<times> string" where
  "fgets_chunk 0 file = ([], file)"
| "fgets_chunk (Suc k) [] = ([], [])"
| "fgets_chunk (Suc k) (x # file) =
     (if x = newline then ([x], file)
      else (case fgets_chunk k file of (line, rest) \<Rightarrow> (x # line, rest)))"

definition fgets :: "nat \<Rightarrow> string \<Rightarrow> (string \<times> string) option" where
  "fgets n file = (if file = [] then None else Some (fgets_chunk (n - 1) file))"

text \<open>What \<open>strlen\<close> and \<open>printf("%s")\<close> see of a buffer: the bytes before the first NUL.\<close>

definition c_str :: "string \<Rightarrow> string" where
  "c_str buf = takeWhile (\<lambda>x. x \<noteq> CHR 0x00) buf"

lemma fgets_chunk_shrinks:
  "fgets_chunk k inp = (ln, rest) \<Longrightarrow> 0 < k \<Longrightarrow> inp \<noteq> [] \<Longrightarrow> length rest < length inp"
proof (induction k inp arbitrary: ln rest rule: fgets_chunk.induct)
  case (3 k x inp)
  show ?case
  proof (cases "x = newline")
    case True
    with 3 show ?thesis by simp
  next
    case False
    obtain l r where lr: "fgets_chunk k inp = (l, r)" by (cases "fgets_chunk k inp")
    with 3(2) False have r: "rest = r" by simp
    show ?thesis
    proof (cases "0 < k \<and> inp \<noteq> []")
      case True
      with 3(1)[OF False lr] r show ?thesis by simp
    next
      case False
      with lr r show ?thesis by (cases k) auto
    qed
  qed
qed simp_all

text \<open>
  The loop that replays the capture file; the result is what it prints to standard
  output.
\<close>

function diag_loop :: "bool \<Rightarrow> string \<Rightarrow> string" where
  "diag_loop fresh_line file =
     (case fgets BUFLEN file of
        None \<Rightarrow> []
      | Some (line_buf, rest) \<Rightarrow>
          (if fresh_line then ''#: '' else []) @ c_str line_buf @
          (if length (c_str line_buf) > 0
              \<and> c_str line_buf ! (length (c_str line_buf) - 1) = newline
           then diag_loop True rest
           else if length (c_str line_buf) < BUFLEN - 1
           then [newline] @ diag_loop True rest
           else diag_loop False rest))"
  by pat_completeness auto
termination
  by (relation "measure (\<lambda>(f, inp). length inp)")
     (auto simp: fgets_def BUFLEN_def split: if_splits dest: fgets_chunk_shrinks)

declare diag_loop.simps [simp del]

definition ok_line :: "nat \<Rightarrow> string \<Rightarrow> string" where
  "ok_line i display = ''ok '' @ show_nat i @ '' - '' @ display @ [newline]"

definition not_ok_line :: "nat \<Rightarrow> string \<Rightarrow> string \<Rightarrow> string" where
  "not_ok_line i display reason =
     ''not ok '' @ show_nat i @ '' - '' @ display @ '' ('' @ reason @ '')'' @ [newline]"

text \<open>
  The parent's branch of a block after \<open>waitpid\<close>: \<open>status\<close> is the wait status and
  \<open>capture\<close> the content of the capture file, \<open>None\<close> when \<open>fdopen\<close> fails (the
  message about that goes to standard error).
\<close>

definition report :: "wait_macros \<Rightarrow> nat \<Rightarrow> string \<Rightarrow> int \<Rightarrow> string option \<Rightarrow> string" where
  "report W i display status capture =
     (if WIFEXITED W status \<and> WEXITSTATUS W status = 0 then ok_line i display
      else
        (if WIFEXITED W status then
           not_ok_line i display (''exit code: '' @ show_int (WEXITSTATUS W status))
         else if WIFSIGNALED W status then
           (if WTERMSIG W status = SIGALRM W then
              not_ok_line i display ''timeout after 10s''
            else
              not_ok_line i display (''killed by signal '' @ show_int (WTERMSIG W status)))
         else not_ok_line i display ''unknown failure'')
        @ (case capture of None \<Rightarrow> [] | Some file \<Rightarrow> diag_loop True file))"

text \<open>
  The lines of an output: the text between newlines, and what follows the last newline
  when that is not empty.
\<close>

fun lines_acc :: "string \<Rightarrow> string \<Rightarrow> string list" where
  "lines_acc cur [] = (if cur = [] then [] else [cur])"
| "lines_acc cur (x # xs) =
     (if x = newline then cur # lines_acc [] xs else lines_acc (cur @ [x]) xs)"

definition lines_of :: "string \<Rightarrow> string list" where
  "lines_of out = lines_acc [] out"

text \<open>
  The replay as the specification words it, byte by byte: \<open>#: \<close> before the first
  byte of every line, every byte of the capture file as it is, and a newline at the
  end when the file stops in the middle of a line. \<open>fresh\<close> says that the next byte
  starts a line.
\<close>

fun prefixed_from :: "bool \<Rightarrow> string \<Rightarrow> string" where
  "prefixed_from fresh [] = (if fresh then [] else [newline])"
| "prefixed_from fresh (x # xs) =
     (if fresh then ''#: '' else []) @
     (if x = newline then newline # prefixed_from True xs else x # prefixed_from False xs)"

text \<open>
  \<open>newline_lost col inp\<close>: reading \<open>inp\<close> from column \<open>col\<close> of the current line,
  the input ends in the middle of a line, at a column that is a positive multiple of
  what one \<open>fgets\<close> call reads.
\<close>

fun newline_lost :: "nat \<Rightarrow> string \<Rightarrow> bool" where
  "newline_lost col [] = (0 < col \<and> col mod (BUFLEN - 1) = 0)"
| "newline_lost col (x # xs) =
     (if x = newline then newline_lost 0 xs else newline_lost (Suc col) xs)"

text \<open>Wait statuses as Linux encodes them, for the examples.\<close>

definition example_wait_macros :: wait_macros where
  "example_wait_macros =
     \<lparr>WIFEXITED = (\<lambda>s. s mod 128 = 0), WEXITSTATUS = (\<lambda>s. (s div 256) mod 256),
      WIFSIGNALED = (\<lambda>s. 0 < s mod 128 \<and> s mod 128 < 127),
      WTERMSIG = (\<lambda>s. s mod 128), SIGALRM = 14\<rparr>"

section \<open>Properties of the custodian\<close>

text \<open>
  C1. \<open>custodian_alloc(c, n)\<close> should hand out \<open>n\<close> bytes that lie past the entry
  header inside one allocation holding both. The code asks the allocator for \<open>n\<close>
  bytes only and returns the address 8 bytes into that block: for \<open>n = 100\<close> and a
  block at \<open>0x1000\<close> the caller's 100 bytes start at \<open>0x1008\<close> and end 8 bytes after
  the end of the block. \<open>custodian_defer\<close> on the same custodian asks for its payload
  and the header, 16 + 8 bytes.
\<close>

theorem custodian_alloc_requests_size_only:
  "(\<exists>s'. custodian_alloc 1
          (custodian_init \<lparr>mem = Map.empty, responses = [0x1000], trace = []\<rparr> 0x100 0 0x80)
          0x100 100 = Inr (0x1008, s')
        \<and> trace s' = [EvAlloc 0x80 100 0x1000])
   \<and> unat (0x1000 :: addr) + unat (100 :: size_t) < unat (0x1008 :: addr) + unat (100 :: size_t)
   \<and> (\<exists>s'. custodian_defer 1
          (custodian_init \<lparr>mem = Map.empty, responses = [0x1000], trace = []\<rparr> 0x100 0 0x80)
          0x100 0 0x500 = Inr s'
        \<and> trace s' = [EvAlloc 0x80 24 0x1000])"
  by (simp add: custodian_alloc_def custodian_defer_def custodian_init_def write_cell_def
      read_cust_def allocator_alloc_def set_stack_def sizeof_CustodianEntry_def
      sizeof_CustodianResource_def)

subsection \<open>Release of a well-formed stack\<close>

lemma cells_list_simps [simp]:
  "cells_list [] = []" "cells_list (e # es) = cells e @ cells_list es"
  "cells_list (xs @ ys) = cells_list xs @ cells_list ys"
  by (simp_all add: cells_list_def)

lemma repr_frame_aux:
  "((\<forall>x\<in>set (cells_list es). mem s' x = mem s x) \<longrightarrow>
      repr_stack s' al owner tp es = repr_stack s al owner tp es)"
  "((\<forall>x\<in>set (cells e). mem s' x = mem s x) \<longrightarrow>
      repr_payload s' al owner e = repr_payload s al owner e)"
proof (induction s al owner tp es and s al owner e rule: repr_stack_repr_payload.induct)
  case (2 s al owner tp e es)
  show ?case
  proof
    assume eq: "\<forall>x\<in>set (cells_list (e # es)). mem s' x = mem s x"
    show "repr_stack s' al owner tp (e # es) = repr_stack s al owner tp (e # es)"
    proof (cases "tp = entry_addr e")
      case False then show ?thesis by simp
    next
      case True
      then have "tp \<in> set (cells e)" by (cases e) auto
      with eq have rd: "read_entry s' tp = read_entry s tp" by (simp add: read_entry_def)
      show ?thesis
      proof (cases "read_entry s tp")
        case None with rd show ?thesis by simp
      next
        case (Some tagged)
        with 2[OF Some] eq rd show ?thesis by simp
      qed
    qed
  qed
next
  case (5 s al owner p ces)
  show ?case
  proof
    assume eq: "\<forall>x\<in>set (cells (ChildScope p ces)). mem s' x = mem s x"
    then have rd: "read_cust s' (p + sizeof_CustodianEntry) = read_cust s (p + sizeof_CustodianEntry)"
      by (simp add: read_cust_def)
    show "repr_payload s' al owner (ChildScope p ces) = repr_payload s al owner (ChildScope p ces)"
    proof (cases "read_cust s (p + sizeof_CustodianEntry)")
      case None with rd show ?thesis by simp
    next
      case (Some C)
      with 5[OF Some] eq rd show ?thesis by (simp add: cells_list_def)
    qed
  qed
qed (simp_all add: read_res_def)


lemma repr_frame:
  "\<forall>x\<in>set (cells_list es). mem s' x = mem s x \<Longrightarrow>
   repr_stack s' al owner tp es = repr_stack s al owner tp es"
  using repr_frame_aux(1) by blast

lemma release_all_simps [simp]:
  "release_all al [] = []"
  "release_all al (e # es) = release_events al e @ release_all al es"
  "release_all al (xs @ ys) = release_all al xs @ release_all al ys"
  by (simp_all add: release_all_def)

lemma mem_released [simp]:
  "mem (released s al es) x = (if x \<in> set (cells_list es) then None else mem s x)"
  by (simp add: released_def)

lemma trace_released [simp]:
  "trace (released s al es) = trace s @ release_all al es"
  by (simp add: released_def)

lemma responses_released [simp]: "responses (released s al es) = responses s"
  by (simp add: released_def)

lemma released_Nil [simp]: "released s al [] = s"
  by (simp add: released_def)

lemma released_Allocation:
  "released (allocator_free s al p) al es = released s al (Allocation p # es)"
  by (rule state.equality) (auto simp: released_def allocator_free_def)

lemma released_Resource:
  "released (allocator_free (if f \<noteq> 0 then call_cleanup s f h else s) al p) al es
     = released s al (Resource p h f # es)"
  by (rule state.equality) (auto simp: released_def allocator_free_def call_cleanup_def)

lemma released_ChildScope:
  "released (allocator_free (write_cell (released s al ces) (p + sizeof_CustodianEntry) v) al p) al es
     = released s al (ChildScope p ces # es)"
  by (rule state.equality)
     (auto simp: released_def allocator_free_def write_cell_def cells_list_def release_all_def)

lemma tags_distinct [simp]:
  "TAG_ALLOCATION \<noteq> TAG_RESOURCE" "TAG_ALLOCATION \<noteq> TAG_CUSTODIAN" "TAG_RESOURCE \<noteq> TAG_CUSTODIAN"
  "TAG_RESOURCE \<noteq> TAG_ALLOCATION" "TAG_CUSTODIAN \<noteq> TAG_ALLOCATION" "TAG_CUSTODIAN \<noteq> TAG_RESOURCE"
  by (simp_all add: TAG_ALLOCATION_def TAG_RESOURCE_def TAG_CUSTODIAN_def)

lemma repr_after_free:
  assumes "repr_stack s al owner tp es" "p \<notin> set (cells_list es)"
    "p + sizeof_CustodianEntry \<notin> set (cells_list es)"
  shows "repr_stack (allocator_free s al' p) al owner tp es"
proof -
  have "\<forall>x\<in>set (cells_list es). mem (allocator_free s al' p) x = mem s x"
    using assms(2,3) by (auto simp: allocator_free_def)
  from repr_frame[OF this] assms(1) show ?thesis by simp
qed

lemma shutdown_loop_released:
  "repr_stack s al owner tp es \<Longrightarrow> distinct (cells_list es) \<Longrightarrow> fuel_stack es \<le> n \<Longrightarrow>
   shutdown_loop n s al tp = Inr (released s al es)"
proof (induction "size_list size es" arbitrary: s owner tp es n rule: less_induct)
  case less
  from less.prems(3) obtain m where n: "n = Suc m"
    by (cases n) (auto simp: fuel_stack_def)
  show ?case
  proof (cases es)
    case Nil
    with less.prems(1) n show ?thesis by simp
  next
    case (Cons e es')
    from less.prems(1) Cons obtain tagged where
      tp: "tp \<noteq> 0" "tp = entry_addr e" and rd: "read_entry s tp = Some tagged"
      and tag: "ptr_tag_get tagged = entry_tag e" and pay: "repr_payload s al owner e"
      and rest: "repr_stack s al owner (ptr_untag tagged) es'"
      by (auto split: option.splits)
    from less.prems(2) Cons have d: "distinct (cells e)" "distinct (cells_list es')"
      "set (cells e) \<inter> set (cells_list es') = {}" by auto
    from less.prems(3) Cons n have fuel': "fuel_stack es' \<le> m"
      by (cases e) (auto simp: fuel_stack_def)
    have sz: "size_list size es' < size_list size es" using Cons by simp
    show ?thesis
    proof (cases e)
      case (Allocation p)
      with tp have p: "tp = p" by simp
      from d(3) Allocation have "p \<notin> set (cells_list es')"
        "p + sizeof_CustodianEntry \<notin> set (cells_list es')" by auto
      from repr_after_free[OF rest this]
      have "repr_stack (allocator_free s al p) al owner (ptr_untag tagged) es'" .
      from less.hyps[OF sz this d(2) fuel']
      have "shutdown_loop m (allocator_free s al p) al (ptr_untag tagged)
              = Inr (released (allocator_free s al p) al es')" .
      with tp rd tag n p Allocation Cons show ?thesis
        by (simp add: released_Allocation)
    next
      case (Resource p h f)
      with tp have p: "tp = p" by simp
      from pay Resource have res: "read_res s (p + sizeof_CustodianEntry) = Some \<lparr>ptr = h, cleanup = f\<rparr>"
        by simp
      let ?s1 = "if f \<noteq> 0 then call_cleanup s f h else s"
      have m1: "mem ?s1 = mem s" by (simp add: call_cleanup_def)
      have rest1: "repr_stack ?s1 al owner (ptr_untag tagged) es'"
        using repr_frame[of es' ?s1 s al owner "ptr_untag tagged"] rest m1 by simp
      from d(3) Resource have "p \<notin> set (cells_list es')"
        "p + sizeof_CustodianEntry \<notin> set (cells_list es')" by auto
      from repr_after_free[OF rest1 this]
      have "repr_stack (allocator_free ?s1 al p) al owner (ptr_untag tagged) es'" .
      from less.hyps[OF sz this d(2) fuel']
      have "shutdown_loop m (allocator_free ?s1 al p) al (ptr_untag tagged)
              = Inr (released (allocator_free ?s1 al p) al es')" .
      with tp rd tag n p Resource Cons res show ?thesis
        by (simp add: released_Resource cong: if_cong)
    next
      case (ChildScope p ces)
      with tp have p: "tp = p" by simp
      let ?c = "p + sizeof_CustodianEntry"
      from pay ChildScope obtain C where C: "read_cust s ?c = Some C" "a C = al"
        and cr: "repr_stack s al ?c (stack C) ces"
        by (auto split: option.splits)
      from d(1) ChildScope have dc: "distinct (cells_list ces)" "?c \<notin> set (cells_list ces)"
        "p \<notin> set (cells_list ces)"
        by (auto simp: cells_list_def)
      have szc: "size_list size ces < size_list size es" using Cons ChildScope by simp
      from less.prems(3) Cons n ChildScope obtain k where m: "m = Suc k" and fuelc: "fuel_stack ces \<le> k"
        by (cases m) (auto simp: fuel_stack_def)
      from less.hyps[OF szc cr dc(1) fuelc]
      have loopc: "shutdown_loop k s al (stack C) = Inr (released s al ces)" .
      have rdc: "read_cust (released s al ces) ?c = Some C"
        using C(1) dc(2) by (simp add: read_cust_def)
      let ?s2 = "write_cell (released s al ces) ?c (CustodianCell (C\<lparr>stack := 0\<rparr>))"
      have child: "custodian_shutdown m s ?c = Inr ?s2"
        using C loopc rdc m by (simp add: set_stack_def)
      have fr: "\<forall>x\<in>set (cells_list es'). mem (allocator_free ?s2 al p) x = mem s x"
        using d(3) ChildScope by (auto simp: allocator_free_def write_cell_def cells_list_def)
      from repr_frame[OF fr] rest
      have "repr_stack (allocator_free ?s2 al p) al owner (ptr_untag tagged) es'" by simp
      from less.hyps[OF sz this d(2) fuel']
      have "shutdown_loop m (allocator_free ?s2 al p) al (ptr_untag tagged)
              = Inr (released (allocator_free ?s2 al p) al es')" .
      with tp rd tag n p ChildScope Cons child show ?thesis
        by (simp add: released_ChildScope)
    qed
  qed
qed

lemma custodian_shutdown_released:
  assumes wf: "wf_cust s c es" and C: "read_cust s c = Some C"
    and fuel: "Suc (fuel_stack es) \<le> n"
  shows "custodian_shutdown n s c
           = Inr (write_cell (released s (a C) es) c (CustodianCell (C\<lparr>stack := 0\<rparr>)))"
proof -
  from fuel obtain m where n: "n = Suc m" and m: "fuel_stack es \<le> m" by (cases n) auto
  from wf C have r: "repr_stack s (a C) c (stack C) es" and d: "distinct (cells_list es)"
    and c: "c \<notin> set (cells_list es)"
    by (auto simp: wf_cust_def)
  have loop: "shutdown_loop m s (a C) (stack C) = Inr (released s (a C) es)"
    by (rule shutdown_loop_released[OF r d m])
  have "read_cust (released s (a C) es) c = Some C"
    using C c by (simp add: read_cust_def)
  with loop C n show ?thesis by (simp add: set_stack_def)
qed

lemma untag_tag: "p AND 3 = 0 \<Longrightarrow> ptr_untag (ptr_tag p t) = p"
  unfolding ptr_untag_def ptr_tag_def PTR_MASK_def TAG_MASK_def
  by (metis (no_types, lifting) and.commute bit.conj_disj_distrib2
    bit.de_Morgan_disj bit.double_compl word_and_not word_ao_absorbs(4))

lemma tag_get_tag:
  "p AND 3 = 0 \<Longrightarrow> ptr_tag_get (ptr_tag p t) = t AND 3"
  unfolding ptr_tag_get_def ptr_tag_def TAG_MASK_def
  by (simp add: bit.conj_disj_distrib2)

lemma tag_get_consts [simp]:
  "p AND 3 = 0 \<Longrightarrow> ptr_tag_get (ptr_tag p TAG_ALLOCATION) = TAG_ALLOCATION"
  "p AND 3 = 0 \<Longrightarrow> ptr_tag_get (ptr_tag p TAG_RESOURCE) = TAG_RESOURCE"
  "p AND 3 = 0 \<Longrightarrow> ptr_tag_get (ptr_tag p TAG_CUSTODIAN) = TAG_CUSTODIAN"
  by (simp_all add: tag_get_tag TAG_ALLOCATION_def TAG_RESOURCE_def TAG_CUSTODIAN_def)

lemma repr_stack_aligned: "repr_stack s al owner tp es \<Longrightarrow> tp AND 3 = 0"
  by (cases es) auto

lemma plus8_neq [simp]:
  "(p::addr) + sizeof_CustodianEntry \<noteq> p" "p \<noteq> p + sizeof_CustodianEntry"
  "sizeof_CustodianEntry \<noteq> 0"
  by (simp_all add: sizeof_CustodianEntry_def)

text \<open>What a successful push leaves behind.\<close>

lemma push_wf:
  assumes wf: "wf_cust s c es" and C: "read_cust s c = Some C"
    and fresh: "fresh_block c (cells_list es) p"
    and e: "entry_addr e = p" "cells e = [p, p + sizeof_CustodianEntry]"
    and m: "mem s' = (mem s)(p + sizeof_CustodianEntry := pay, p \<mapsto> EntryCell (ptr_tag (stack C) (entry_tag e)),
                         c \<mapsto> CustodianCell (C\<lparr>stack := p\<rparr>))"
    and tg: "ptr_tag_get (ptr_tag (stack C) (entry_tag e)) = entry_tag e"
    and pay: "repr_payload s' (a C) c e"
  shows "wf_cust s' c (e # es)"
proof -
  from wf C have r: "repr_stack s (a C) c (stack C) es" and d: "distinct (cells_list es)"
    and c: "c \<notin> set (cells_list es)" "c \<noteq> 0"
    by (auto simp: wf_cust_def)
  from fresh have f: "p \<noteq> 0" "p AND 3 = 0" "p \<noteq> c" "p + sizeof_CustodianEntry \<noteq> c"
    "p \<notin> set (cells_list es)" "p + sizeof_CustodianEntry \<notin> set (cells_list es)"
    by (auto simp: fresh_block_def)
  have "\<forall>x\<in>set (cells_list es). mem s' x = mem s x"
    using f c m by auto
  from repr_frame[OF this] r have r': "repr_stack s' (a C) c (stack C) es" by simp
  have rc: "read_cust s' c = Some (C\<lparr>stack := p\<rparr>)" using m by (simp add: read_cust_def)
  have re: "read_entry s' p = Some (ptr_tag (stack C) (entry_tag e))"
    using m f by (simp add: read_entry_def)
  from repr_stack_aligned[OF r] have "ptr_untag (ptr_tag (stack C) (entry_tag e)) = stack C"
    by (rule untag_tag)
  with r' rc re f c d e tg pay show ?thesis
    by (simp add: wf_cust_def)
qed

lemma custodian_alloc_push:
  assumes wf: "wf_cust s c es" and C: "read_cust s c = Some C"
    and resp: "responses s = p # rest"
    and fresh: "fresh_block c (cells_list es) p"
  shows "\<exists>s'. custodian_alloc n s c sz = Inr (p + sizeof_CustodianEntry, s')
           \<and> wf_cust s' c (Allocation p # es)
           \<and> read_cust s' c = Some (C\<lparr>stack := p\<rparr>)
           \<and> responses s' = rest
           \<and> trace s' = trace s @ [EvAlloc (a C) sz p]"
proof -
  from fresh have f: "p \<noteq> 0" "p \<noteq> c" by (auto simp: fresh_block_def)
  from wf C have r: "repr_stack s (a C) c (stack C) es" by (auto simp: wf_cust_def)
  let ?s1 = "s\<lparr>responses := rest, trace := trace s @ [EvAlloc (a C) sz p]\<rparr>"
  let ?s' = "write_cell (write_cell ?s1 p (EntryCell (ptr_tag (stack C) TAG_ALLOCATION))) c
               (CustodianCell (C\<lparr>stack := p\<rparr>))"
  have run: "custodian_alloc n s c sz = Inr (p + sizeof_CustodianEntry, ?s')"
    using C resp f
    by (simp add: custodian_alloc_def allocator_alloc_def read_cust_def set_stack_def write_cell_def)
  have "wf_cust ?s' c (Allocation p # es)"
  proof (rule push_wf[OF wf C fresh, where pay = "mem s (p + sizeof_CustodianEntry)"])
    show "mem ?s' = (mem s)(p + sizeof_CustodianEntry := mem s (p + sizeof_CustodianEntry),
        p \<mapsto> EntryCell (ptr_tag (stack C) (entry_tag (Allocation p))),
        c \<mapsto> CustodianCell (C\<lparr>stack := p\<rparr>))"
      by (simp add: write_cell_def)
    show "ptr_tag_get (ptr_tag (stack C) (entry_tag (Allocation p))) = entry_tag (Allocation p)"
      using repr_stack_aligned[OF r] by simp
  qed simp_all
  moreover have "read_cust ?s' c = Some (C\<lparr>stack := p\<rparr>)"
    by (simp add: read_cust_def write_cell_def)
  ultimately show ?thesis using run by (simp add: write_cell_def)
qed

lemma custodian_defer_push:
  assumes wf: "wf_cust s c es" and C: "read_cust s c = Some C"
    and resp: "responses s = p # rest"
    and fresh: "fresh_block c (cells_list es) p"
  shows "\<exists>s'. custodian_defer n s c h f = Inr s'
           \<and> wf_cust s' c (Resource p h f # es)
           \<and> read_cust s' c = Some (C\<lparr>stack := p\<rparr>)
           \<and> responses s' = rest
           \<and> trace s' = trace s @ [EvAlloc (a C) (sizeof_CustodianEntry + sizeof_CustodianResource) p]"
proof -
  from fresh have f: "p \<noteq> 0" "p \<noteq> c" "p + sizeof_CustodianEntry \<noteq> c"
    by (auto simp: fresh_block_def)
  from wf C have r: "repr_stack s (a C) c (stack C) es" by (auto simp: wf_cust_def)
  let ?s1 = "s\<lparr>responses := rest,
               trace := trace s @ [EvAlloc (a C) (sizeof_CustodianEntry + sizeof_CustodianResource) p]\<rparr>"
  let ?s' = "write_cell (write_cell
                (write_cell ?s1 (p + sizeof_CustodianEntry) (ResourceCell \<lparr>ptr = h, cleanup = f\<rparr>))
                p (EntryCell (ptr_tag (stack C) TAG_RESOURCE))) c
               (CustodianCell (C\<lparr>stack := p\<rparr>))"
  have run: "custodian_defer n s c h f = Inr ?s'"
    using C resp f
    by (simp add: custodian_defer_def allocator_alloc_def read_cust_def set_stack_def write_cell_def)
  have "wf_cust ?s' c (Resource p h f # es)"
  proof (rule push_wf[OF wf C fresh, where pay = "Some (ResourceCell \<lparr>ptr = h, cleanup = f\<rparr>)"])
    show "mem ?s' = (mem s)(p + sizeof_CustodianEntry := Some (ResourceCell \<lparr>ptr = h, cleanup = f\<rparr>),
        p \<mapsto> EntryCell (ptr_tag (stack C) (entry_tag (Resource p h f))),
        c \<mapsto> CustodianCell (C\<lparr>stack := p\<rparr>))"
      by (simp add: write_cell_def)
    show "ptr_tag_get (ptr_tag (stack C) (entry_tag (Resource p h f))) = entry_tag (Resource p h f)"
      using repr_stack_aligned[OF r] by simp
    show "repr_payload ?s' (a C) c (Resource p h f)"
      using f by (simp add: read_res_def write_cell_def)
  qed simp_all
  moreover have "read_cust ?s' c = Some (C\<lparr>stack := p\<rparr>)"
    by (simp add: read_cust_def write_cell_def)
  ultimately show ?thesis using run by (simp add: write_cell_def)
qed

lemma custodian_child_create_push:
  assumes wf: "wf_cust s c es" and C: "read_cust s c = Some C"
    and resp: "responses s = p # rest"
    and fresh: "fresh_block c (cells_list es) p"
  shows "\<exists>s'. custodian_child_create n s c = Inr (p + sizeof_CustodianEntry, s')
           \<and> wf_cust s' c (ChildScope p [] # es)
           \<and> read_cust s' c = Some (C\<lparr>stack := p\<rparr>)
           \<and> read_cust s' (p + sizeof_CustodianEntry) = Some \<lparr>stack = 0, a = a C, parent = c\<rparr>
           \<and> responses s' = rest
           \<and> trace s' = trace s @ [EvAlloc (a C) (sizeof_CustodianEntry + sizeof_Custodian) p]"
proof -
  from fresh have f: "p \<noteq> 0" "p \<noteq> c" "p + sizeof_CustodianEntry \<noteq> c" "p + sizeof_CustodianEntry \<noteq> 0"
    by (auto simp: fresh_block_def)
  from wf C have r: "repr_stack s (a C) c (stack C) es" by (auto simp: wf_cust_def)
  let ?s1 = "s\<lparr>responses := rest,
               trace := trace s @ [EvAlloc (a C) (sizeof_CustodianEntry + sizeof_Custodian) p]\<rparr>"
  let ?s' = "write_cell (write_cell
                (write_cell ?s1 (p + sizeof_CustodianEntry) (CustodianCell \<lparr>stack = 0, a = a C, parent = c\<rparr>))
                p (EntryCell (ptr_tag (stack C) TAG_CUSTODIAN))) c
               (CustodianCell (C\<lparr>stack := p\<rparr>))"
  have run: "custodian_child_create n s c = Inr (p + sizeof_CustodianEntry, ?s')"
    using C resp f
    by (simp add: custodian_child_create_def custodian_init_def allocator_alloc_def read_cust_def
        set_stack_def write_cell_def Let_def)
  have "wf_cust ?s' c (ChildScope p [] # es)"
  proof (rule push_wf[OF wf C fresh,
        where pay = "Some (CustodianCell \<lparr>stack = 0, a = a C, parent = c\<rparr>)"])
    show "mem ?s' = (mem s)(p + sizeof_CustodianEntry := Some (CustodianCell \<lparr>stack = 0, a = a C, parent = c\<rparr>),
        p \<mapsto> EntryCell (ptr_tag (stack C) (entry_tag (ChildScope p []))),
        c \<mapsto> CustodianCell (C\<lparr>stack := p\<rparr>))"
      by (simp add: write_cell_def)
    show "ptr_tag_get (ptr_tag (stack C) (entry_tag (ChildScope p []))) = entry_tag (ChildScope p [])"
      using repr_stack_aligned[OF r] by simp
    show "repr_payload ?s' (a C) c (ChildScope p [])"
      using f by (simp add: read_cust_def write_cell_def)
  qed simp_all
  moreover have "read_cust ?s' c = Some (C\<lparr>stack := p\<rparr>)"
    by (simp add: read_cust_def write_cell_def)
  moreover have "read_cust ?s' (p + sizeof_CustodianEntry) = Some \<lparr>stack = 0, a = a C, parent = c\<rparr>"
    using f by (simp add: read_cust_def write_cell_def)
  ultimately show ?thesis using run by (simp add: write_cell_def)
qed

lemma write_cell_same: "mem s c = Some v \<Longrightarrow> write_cell s c v = s"
  by (simp add: write_cell_def map_upd_triv)

lemma wf_cust_empty:
  "c \<noteq> 0 \<Longrightarrow> read_cust s c = Some C \<Longrightarrow> stack C = 0 \<Longrightarrow> wf_cust s c []"
  by (simp add: wf_cust_def)

lemma read_cust_write_same [simp]:
  "read_cust (write_cell s c (CustodianCell C)) c = Some C"
  by (simp add: read_cust_def write_cell_def)

subsection \<open>The example custodian\<close>

lemmas model_defs =
  read_cust_def read_entry_def read_res_def write_cell_def set_stack_def
  allocator_alloc_def allocator_free_def call_cleanup_def custodian_init_def
  ptr_tag_def ptr_untag_def ptr_tag_get_def TAG_MASK_def PTR_MASK_def
  TAG_ALLOCATION_def TAG_RESOURCE_def TAG_CUSTODIAN_def
  sizeof_CustodianEntry_def sizeof_Custodian_def sizeof_CustodianResource_def

lemma example_cells:
  "cells_list example_entries =
     [0x7000, 0x7008, 0x4000, 0x4008, 0x6000, 0x6008, 0x5000, 0x5008,
      0x3000, 0x3008, 0x2000, 0x2008, 0x1000, 0x1008]"
  by (simp add: example_entries_def example_child_def example_lower_def cells_list_def
      sizeof_CustodianEntry_def)

lemma example_repr: "repr_stack example_state 0x80 0x100 0x7000 example_entries"
  by (simp add: example_state_def example_entries_def example_child_def example_lower_def model_defs)

lemma example_root:
  "read_cust example_state 0x100 = Some \<lparr>stack = 0x7000, a = 0x80, parent = 0\<rparr>"
  by (simp add: example_state_def read_cust_def)

lemma example_wf: "wf_cust example_state 0x100 example_entries"
  using example_repr by (simp add: wf_cust_def example_root example_cells)

lemma example_fuel: "fuel_stack example_entries = 10"
  by (simp add: fuel_stack_def example_entries_def example_child_def example_lower_def)

lemma example_reached:
  "\<exists>s. test_program_pushes 0
          (custodian_init
             \<lparr>mem = Map.empty,
              responses = [0x1000, 0x2000, 0x3000, 0x4000, 0x5000, 0x6000, 0x7000,
                           0x8000, 0x9000, 0xA000],
              trace = []\<rparr> 0x100 0 0x80)
          0x100 = Inr s
       \<and> mem s = mem example_state \<and> responses s = responses example_state"
  by (simp add: test_program_pushes_def custodian_alloc_def custodian_defer_def
      custodian_child_create_def model_defs example_state_def Let_def)
     (rule ext, simp)

lemma example_resp: "responses example_state = 0x8000 # [0x9000, 0xA000]"
  by (simp add: example_state_def)

lemma example_fresh: "fresh_block 0x100 (cells_list example_entries) 0x8000"
  by (simp add: fresh_block_def example_cells sizeof_CustodianEntry_def)

subsection \<open>Shutdown\<close>

text \<open>
  C2. \<open>custodian_shutdown\<close> is idempotent. On a well-formed custodian \<open>c\<close> it returns,
  and leaves the node as \<open>custodian_init\<close> with the same parent and allocator would:
  empty stack, same allocator, same parent. A second shutdown returns the very same
  state, trace included: no cleanup is called and nothing is released.
\<close>

theorem custodian_shutdown_idempotent:
  assumes "wf_cust s c es" and "read_cust s c = Some C" and "Suc (fuel_stack es) \<le> n"
  shows "\<exists>s'. custodian_shutdown n s c = Inr s'
           \<and> read_cust s' c = Some \<lparr>stack = 0, a = a C, parent = parent C\<rparr>
           \<and> read_cust s' c = read_cust (custodian_init s c (parent C) (a C)) c
           \<and> custodian_shutdown n s' c = Inr s'"
proof -
  let ?C0 = "C\<lparr>stack := 0\<rparr>"
  let ?s' = "write_cell (released s (a C) es) c (CustodianCell ?C0)"
  have 1: "custodian_shutdown n s c = Inr ?s'"
    by (rule custodian_shutdown_released[OF assms])
  have 2: "read_cust ?s' c = Some ?C0" by simp
  have C0: "?C0 = \<lparr>stack = 0, a = a C, parent = parent C\<rparr>" by simp
  from assms(1) have "c \<noteq> 0" by (simp add: wf_cust_def)
  then have wf': "wf_cust ?s' c []" using 2 by (simp add: wf_cust_empty)
  from assms(3) have "Suc (fuel_stack []) \<le> n" by (simp add: fuel_stack_def)
  from custodian_shutdown_released[OF wf' 2 this]
  have "custodian_shutdown n ?s' c = Inr (write_cell ?s' c (CustodianCell ?C0))" by simp
  moreover have "write_cell ?s' c (CustodianCell ?C0) = ?s'"
    by (rule write_cell_same) (simp add: write_cell_def)
  ultimately have 3: "custodian_shutdown n ?s' c = Inr ?s'" by simp
  have 4: "read_cust (custodian_init s c (parent C) (a C)) c = Some ?C0"
    by (simp add: custodian_init_def)
  from 1 2 3 4 C0 show ?thesis by simp
qed

theorem custodian_shutdown_idempotent_witness:
  "\<exists>s'. custodian_shutdown 11 example_state 0x100 = Inr s'
        \<and> read_cust s' 0x100 = Some \<lparr>stack = 0, a = 0x80, parent = 0\<rparr>
        \<and> custodian_shutdown 11 s' 0x100 = Inr s'"
proof -
  have "Suc (fuel_stack example_entries) \<le> 11" by (simp add: example_fuel)
  from custodian_shutdown_idempotent[OF example_wf example_root this]
  show ?thesis by auto
qed

text \<open>
  C4. When shutdown reaches a child scope on the stack of \<open>c\<close>, the entries above it
  have been released and nothing else: then come all the releases of the child's own
  entries, then the release of the child's block, and only then the entries below.
  There is no pass over the children ahead of the walk.
\<close>

theorem child_scope_released_in_place:
  assumes "wf_cust s c (upper @ ChildScope p ces # lower)" and "read_cust s c = Some C"
    and "Suc (fuel_stack (upper @ ChildScope p ces # lower)) \<le> n"
  shows "\<exists>s'. custodian_shutdown n s c = Inr s'
           \<and> trace s' = trace s @ release_all (a C) upper @ release_all (a C) ces
                          @ [EvFree (a C) p] @ release_all (a C) lower"
  using custodian_shutdown_released[OF assms]
  by (simp add: write_cell_def release_all_def)

theorem child_scope_released_in_place_witness:
  "\<exists>s'. custodian_shutdown 11 example_state 0x100 = Inr s'
      \<and> trace s' = [EvFree 0x80 0x7000,
                     EvFree 0x80 0x6000, EvFree 0x80 0x5000, EvFree 0x80 0x4000,
                     EvFree 0x80 0x3000, EvCleanup 0x500 0, EvFree 0x80 0x2000, EvFree 0x80 0x1000]"
proof -
  have split: "example_entries = [Allocation 0x7000] @ ChildScope 0x4000 example_child # example_lower"
    by (simp add: example_entries_def)
  have fuel: "Suc (fuel_stack ([Allocation 0x7000] @ ChildScope 0x4000 example_child # example_lower)) \<le> 11"
    using example_fuel by (simp add: split)
  from child_scope_released_in_place[OF example_wf[unfolded split] example_root fuel]
  show ?thesis
    by (simp add: example_child_def example_lower_def example_state_def)
qed

subsection \<open>Pushes followed by shutdown\<close>

lemma do_pushes_wf:
  "wf_cust s c es \<Longrightarrow> read_cust s c = Some C \<Longrightarrow> responses s = ps @ rest \<Longrightarrow>
   length ps = length xs \<Longrightarrow> fresh_blocks c (cells_list es) ps \<Longrightarrow>
   \<exists>s' C'. do_pushes n s c xs = Inr s'
      \<and> wf_cust s' c (rev (map2 push_entry xs ps) @ es)
      \<and> read_cust s' c = Some C' \<and> a C' = a C"
proof (induction xs arbitrary: s es ps C)
  case Nil
  then show ?case by simp
next
  case (Cons x xs)
  from Cons.prems(4) obtain p ps' where ps: "ps = p # ps'" and len: "length ps' = length xs"
    by (cases ps) auto
  from Cons.prems(3) ps have resp: "responses s = p # (ps' @ rest)" by simp
  from Cons.prems(5) ps have fr: "fresh_block c (cells_list es) p"
    and frs: "fresh_blocks c (p # (p + sizeof_CustodianEntry) # cells_list es) ps'" by auto
  have "\<exists>s1. do_push n s c x = Inr s1 \<and> wf_cust s1 c (push_entry x p # es)
           \<and> read_cust s1 c = Some (C\<lparr>stack := p\<rparr>) \<and> responses s1 = ps' @ rest"
  proof (cases x)
    case (PushAlloc sz)
    with custodian_alloc_push[OF Cons.prems(1,2) resp fr, of n sz] show ?thesis by auto
  next
    case (PushDefer h f)
    with custodian_defer_push[OF Cons.prems(1,2) resp fr, of n h f] show ?thesis by auto
  next
    case PushChild
    with custodian_child_create_push[OF Cons.prems(1,2) resp fr, of n] show ?thesis by auto
  qed
  then obtain s1 where s1: "do_push n s c x = Inr s1" "wf_cust s1 c (push_entry x p # es)"
    "read_cust s1 c = Some (C\<lparr>stack := p\<rparr>)" "responses s1 = ps' @ rest" by blast
  have cl: "cells_list (push_entry x p # es) = p # (p + sizeof_CustodianEntry) # cells_list es"
    by (cases x) simp_all
  from Cons.IH[OF s1(2,3,4) len] frs cl
  obtain s' C' where "do_pushes n s1 c xs = Inr s'"
    "wf_cust s' c (rev (map2 push_entry xs ps') @ push_entry x p # es)"
    "read_cust s' c = Some C'" "a C' = a (C\<lparr>stack := p\<rparr>)" by auto
  with s1(1) ps show ?case by simp
qed

lemma fuel_stack_append:
  "fuel_stack (xs @ ys) = sum_list (map fuel_entry xs) + fuel_stack ys"
  by (simp add: fuel_stack_def)

lemma fuel_pushed: "sum_list (map fuel_entry (rev (map2 push_entry xs ps))) \<le> 3 * length xs"
proof -
  have "sum_list (map fuel_entry (map2 push_entry xs ps)) \<le> 3 * length xs"
  proof (induction xs arbitrary: ps)
    case (Cons x xs)
    show ?case
    proof (cases ps)
      case (Cons p ps')
      with Cons.IH[of ps'] show ?thesis by (cases x) auto
    qed simp
  qed simp
  then show ?thesis by (simp add: rev_map[symmetric])
qed

text \<open>
  C3. Entries are released in the reverse order of their pushes. After the pushes
  \<open>xs\<close> on a well-formed node, in that order and with the blocks \<open>ps\<close>, the stack is
  the pushed entries in reverse on top of the old ones, and shutdown releases them
  from the last pushed to the first, then the older entries.
\<close>

theorem shutdown_releases_in_lifo_order:
  assumes "wf_cust s c es" and "read_cust s c = Some C" and "responses s = ps @ rest"
    and "length ps = length xs" and "fresh_blocks c (cells_list es) ps"
    and "fuel_stack es + 3 * length xs < n"
  shows "\<exists>s1 s2. do_pushes n s c xs = Inr s1
           \<and> wf_cust s1 c (rev (map2 push_entry xs ps) @ es)
           \<and> custodian_shutdown n s1 c = Inr s2
           \<and> trace s2 = trace s1 @ release_all (a C) (rev (map2 push_entry xs ps))
                           @ release_all (a C) es"
proof -
  let ?new = "rev (map2 push_entry xs ps)"
  from do_pushes_wf[OF assms(1-5), of n]
  obtain s1 C' where s1: "do_pushes n s c xs = Inr s1" "wf_cust s1 c (?new @ es)"
    "read_cust s1 c = Some C'" "a C' = a C" by blast
  have "Suc (fuel_stack (?new @ es)) \<le> n"
    using assms(6) fuel_pushed[of xs ps] by (simp add: fuel_stack_append)
  from custodian_shutdown_released[OF s1(2,3) this] s1(1,2,4)
  show ?thesis by (simp add: write_cell_def)
qed

theorem shutdown_releases_in_lifo_order_witness:
  "\<exists>s1 s2. do_pushes 20 example_state 0x100 [PushAlloc 50, PushDefer 0 0x500, PushChild] = Inr s1
      \<and> custodian_shutdown 20 s1 0x100 = Inr s2
      \<and> trace s2 = trace s1 @
           [EvFree 0x80 0xA000, EvCleanup 0x500 0, EvFree 0x80 0x9000, EvFree 0x80 0x8000]
           @ release_all 0x80 example_entries"
proof -
  let ?xs = "[PushAlloc 50, PushDefer 0 0x500, PushChild]"
  let ?ps = "[0x8000, 0x9000, 0xA000] :: addr list"
  have resp: "responses example_state = ?ps @ []" by (simp add: example_state_def)
  have len: "length ?ps = length ?xs" by simp
  have fresh: "fresh_blocks 0x100 (cells_list example_entries) ?ps"
    by (simp add: example_cells fresh_block_def sizeof_CustodianEntry_def)
  have fuel: "fuel_stack example_entries + 3 * length ?xs < 20" by (simp add: example_fuel)
  have ev: "release_all 0x80 (rev (map2 push_entry ?xs ?ps))
      = [EvFree 0x80 0xA000, EvCleanup 0x500 0, EvFree 0x80 0x9000, EvFree 0x80 0x8000]"
    by simp
  from shutdown_releases_in_lifo_order[OF example_wf example_root resp len fresh fuel]
  obtain s1 s2 where "do_pushes 20 example_state 0x100 ?xs = Inr s1"
    "custodian_shutdown 20 s1 0x100 = Inr s2"
    "trace s2 = trace s1 @ release_all 0x80 (rev (map2 push_entry ?xs ?ps))
                  @ release_all 0x80 example_entries"
    by auto
  with ev show ?thesis by (intro exI[of _ s1] exI[of _ s2]) simp
qed

lemma defer_then_shutdown:
  assumes wf: "wf_cust s c es" and C: "read_cust s c = Some C"
    and resp: "responses s = p # rest" and fresh: "fresh_block c (cells_list es) p"
    and fuel: "Suc (fuel_stack es) < n"
  shows "\<exists>s1 s2. custodian_defer n s c h f = Inr s1 \<and> custodian_shutdown n s1 c = Inr s2
           \<and> trace s2 = trace s1 @ (if f \<noteq> 0 then [EvCleanup f h] else [])
                           @ [EvFree (a C) p] @ release_all (a C) es
           \<and> mem s2 p = None"
proof -
  from custodian_defer_push[OF wf C resp fresh, of n h f]
  obtain s1 where s1: "custodian_defer n s c h f = Inr s1" "wf_cust s1 c (Resource p h f # es)"
    "read_cust s1 c = Some (C\<lparr>stack := p\<rparr>)" by blast
  from fresh have pc: "p \<noteq> c" by (simp add: fresh_block_def)
  have "Suc (fuel_stack (Resource p h f # es)) \<le> n" using fuel by (simp add: fuel_stack_def)
  from custodian_shutdown_released[OF s1(2,3) this] s1(1) pc
  show ?thesis by (simp add: write_cell_def)
qed

text \<open>
  C5. A deferred entry without cleanup function: shutdown calls no cleanup for it and
  releases its block through the node's allocator (the block \<open>p\<close> is gone from memory
  afterwards). The handle \<open>h\<close> is arbitrary, mapped or not: it is stored and never
  read through.
\<close>

theorem defer_without_cleanup:
  assumes "wf_cust s c es" and "read_cust s c = Some C"
    and "responses s = p # rest" and "fresh_block c (cells_list es) p"
    and "Suc (fuel_stack es) < n"
  shows "\<exists>s1 s2. custodian_defer n s c h 0 = Inr s1 \<and> custodian_shutdown n s1 c = Inr s2
           \<and> trace s2 = trace s1 @ [EvFree (a C) p] @ release_all (a C) es
           \<and> mem s2 p = None"
  using defer_then_shutdown[OF assms, of h 0] by simp

theorem defer_without_cleanup_witness:
  "\<exists>s1 s2. custodian_defer 12 example_state 0x100 0x4242 0 = Inr s1
      \<and> custodian_shutdown 12 s1 0x100 = Inr s2
      \<and> trace s2 = trace s1 @ [EvFree 0x80 0x8000] @ release_all 0x80 example_entries
      \<and> mem s2 0x8000 = None"
proof -
  have "Suc (fuel_stack example_entries) < 12" by (simp add: example_fuel)
  from defer_without_cleanup[OF example_wf example_root example_resp example_fresh this]
  show ?thesis by simp
qed

text \<open>
  C9. A deferred entry with a cleanup function: shutdown calls the function once, with
  the stored handle as argument, whatever the handle is (0 included), and then
  releases the block.
\<close>

theorem deferred_cleanup_called_with_handle:
  assumes "wf_cust s c es" and "read_cust s c = Some C"
    and "responses s = p # rest" and "fresh_block c (cells_list es) p"
    and "Suc (fuel_stack es) < n" and "f \<noteq> 0"
  shows "\<exists>s1 s2. custodian_defer n s c h f = Inr s1 \<and> custodian_shutdown n s1 c = Inr s2
           \<and> trace s2 = trace s1 @ [EvCleanup f h, EvFree (a C) p] @ release_all (a C) es"
  using defer_then_shutdown[OF assms(1-5), of h f] assms(6) by auto

theorem deferred_cleanup_called_with_handle_witness:
  "\<exists>s1 s2. custodian_defer 12 example_state 0x100 0 0x500 = Inr s1
      \<and> custodian_shutdown 12 s1 0x100 = Inr s2
      \<and> trace s2 = trace s1 @ [EvCleanup 0x500 0, EvFree 0x80 0x8000]
                      @ release_all 0x80 example_entries"
proof -
  have fuel: "Suc (fuel_stack example_entries) < 12" by (simp add: example_fuel)
  have f: "(0x500 :: addr) \<noteq> 0" by simp
  from deferred_cleanup_called_with_handle[OF example_wf example_root example_resp example_fresh
      fuel f]
  show ?thesis by simp
qed

subsection \<open>Allocator and parent of a node\<close>

text \<open>Custodian cells: none appears, and those that stay keep allocator and parent.\<close>

lemma kept_refl [simp]: "custodians_kept s s"
  by (simp add: custodians_kept_def)

lemma kept_trans: "custodians_kept s s1 \<Longrightarrow> custodians_kept s1 s2 \<Longrightarrow> custodians_kept s s2"
  unfolding custodians_kept_def by (metis)

lemma kept_free [simp]: "custodians_kept s (allocator_free s al p)"
  by (auto simp: custodians_kept_def allocator_free_def read_cust_def split: if_splits)

lemma kept_cleanup [simp]: "custodians_kept s (call_cleanup s f h)"
  by (simp add: custodians_kept_def call_cleanup_def read_cust_def)

lemma kept_set_stack: "set_stack s c v = Some s' \<Longrightarrow> custodians_kept s s'"
  by (auto simp: custodians_kept_def set_stack_def write_cell_def read_cust_def
      split: option.splits if_splits cell.splits)

lemma kept_shutdown_aux:
  "(\<forall>s'. custodian_shutdown n s c = Inr s' \<longrightarrow> custodians_kept s s')"
  "(\<forall>s'. shutdown_loop n s al entry = Inr s' \<longrightarrow> custodians_kept s s')"
proof (induction n s c and n s al entry rule: custodian_shutdown_shutdown_loop.induct)
  case (2 n s c)
  show ?case
  proof (intro allI impI)
    fix s' assume run: "custodian_shutdown (Suc n) s c = Inr s'"
    then obtain C s1 where C: "read_cust s c = Some C"
      and l: "shutdown_loop n s (a C) (stack C) = Inr s1" and st: "set_stack s1 c 0 = Some s'"
      by (auto split: option.splits sum.splits)
    from 2[OF C] l have "custodians_kept s s1" by blast
    with kept_set_stack[OF st] show "custodians_kept s s'" by (blast intro: kept_trans)
  qed
next
  case (4 n s al entry)
  show ?case
  proof (intro allI impI)
    fix s' assume run: "shutdown_loop (Suc n) s al entry = Inr s'"
    show "custodians_kept s s'"
    proof (cases "entry = 0")
      case True with run show ?thesis by simp
    next
      case False
      with run obtain tagged where rd: "read_entry s entry = Some tagged"
        by (auto split: option.splits)
      let ?prev = "ptr_untag tagged" and ?tag = "ptr_tag_get tagged"
      let ?data = "entry + sizeof_CustodianEntry"
      consider (al) "?tag = TAG_ALLOCATION"
        | (re) "?tag \<noteq> TAG_ALLOCATION" "?tag = TAG_RESOURCE"
        | (cu) "?tag \<noteq> TAG_ALLOCATION" "?tag \<noteq> TAG_RESOURCE" "?tag = TAG_CUSTODIAN"
        | (no) "?tag \<noteq> TAG_ALLOCATION" "?tag \<noteq> TAG_RESOURCE" "?tag \<noteq> TAG_CUSTODIAN"
        by blast
      then show ?thesis
      proof cases
        case al
        with run False rd have "shutdown_loop n (allocator_free s al entry) al ?prev = Inr s'"
          by simp
        with 4(1)[OF False rd refl refl refl al]
        have "custodians_kept (allocator_free s al entry) s'" by blast
        then show ?thesis by (blast intro: kept_trans kept_free)
      next
        case re
        with run False rd obtain res where res: "read_res s ?data = Some res"
          by (auto split: option.splits)
        let ?s1 = "if cleanup res \<noteq> 0 then call_cleanup s (cleanup res) (ptr res) else s"
        from run False rd re res
        have "shutdown_loop n (allocator_free ?s1 al entry) al ?prev = Inr s'"
          by (simp cong: if_cong)
        with 4(2)[OF False rd refl refl refl re(1) re(2) res]
        have "custodians_kept (allocator_free ?s1 al entry) s'" by blast
        moreover have "custodians_kept s ?s1" by simp
        ultimately show ?thesis by (blast intro: kept_trans kept_free)
      next
        case cu
        with run False rd obtain s1 where c: "custodian_shutdown n s ?data = Inr s1"
          and l: "shutdown_loop n (allocator_free s1 al entry) al ?prev = Inr s'"
          by (auto split: sum.splits)
        from 4(3)[OF False rd refl refl refl cu] c have "custodians_kept s s1" by blast
        moreover from 4(4)[OF False rd refl refl refl cu c] l
        have "custodians_kept (allocator_free s1 al entry) s'" by blast
        ultimately show ?thesis by (blast intro: kept_trans kept_free)
      next
        case no
        with run False rd have "shutdown_loop n s al ?prev = Inr s'" by simp
        with 4(5)[OF False rd refl refl refl no] show ?thesis by blast
      qed
    qed
  qed
qed simp_all

lemma custodian_abort_never_returns: "custodian_abort n s c \<noteq> Inr s'"
  by (simp add: custodian_abort_def split: sum.splits)

lemma read_cust_mem_cong: "mem s' = mem s \<Longrightarrow> read_cust s' = read_cust s"
  by (simp add: read_cust_def fun_eq_iff)

lemma allocator_alloc_mem:
  "allocator_alloc s al sz = (entry, s1) \<Longrightarrow> mem s1 = mem s"
  by (auto simp: allocator_alloc_def split: list.splits)

lemma set_stack_Some:
  "set_stack s c v = Some s' \<Longrightarrow>
   \<exists>C. read_cust s c = Some C \<and> read_cust s' c = Some (C\<lparr>stack := v\<rparr>)"
  by (auto simp: set_stack_def split: option.splits)

lemma read_cust_write_other:
  "p \<noteq> c \<Longrightarrow> read_cust (write_cell s p v) c = read_cust s c"
  by (simp add: read_cust_def write_cell_def)

lemma read_cust_write_entry:
  "read_cust (write_cell s p (EntryCell v)) c = Some C \<Longrightarrow> p \<noteq> c"
  by (auto simp: read_cust_def write_cell_def)

lemma read_cust_write_res:
  "read_cust (write_cell s p (ResourceCell v)) c = Some C \<Longrightarrow> p \<noteq> c"
  by (auto simp: read_cust_def write_cell_def)

lemma keeps_alloc:
  assumes C: "read_cust s c = Some C" and run: "custodian_alloc n s c sz = Inr (q, s')"
  shows "\<exists>C'. read_cust s' c = Some C' \<and> a C' = a C \<and> parent C' = parent C"
proof -
  obtain entry s1 where al: "allocator_alloc s (a C) sz = (entry, s1)"
    by (cases "allocator_alloc s (a C) sz")
  from read_cust_mem_cong[OF allocator_alloc_mem[OF al]] C have C1: "read_cust s1 c = Some C"
    by simp
  have e: "entry \<noteq> 0"
    using run C al custodian_abort_never_returns
    by (auto simp: custodian_alloc_def split: sum.splits)
  with run C al C1
  have "set_stack (write_cell s1 entry (EntryCell (ptr_tag (stack C) TAG_ALLOCATION))) c entry
          = Some s'"
    by (auto simp: custodian_alloc_def split: option.splits)
  from set_stack_Some[OF this] obtain C2 where
    C2: "read_cust (write_cell s1 entry (EntryCell (ptr_tag (stack C) TAG_ALLOCATION))) c = Some C2"
      "read_cust s' c = Some (C2\<lparr>stack := entry\<rparr>)" by blast
  from read_cust_write_entry[OF C2(1)] C2(1) C1 have "C2 = C"
    by (simp add: read_cust_write_other)
  with C2(2) show ?thesis by simp
qed

lemma keeps_defer:
  assumes C: "read_cust s c = Some C" and run: "custodian_defer n s c h f = Inr s'"
  shows "\<exists>C'. read_cust s' c = Some C' \<and> a C' = a C \<and> parent C' = parent C"
proof -
  obtain entry s1 where al:
    "allocator_alloc s (a C) (sizeof_CustodianEntry + sizeof_CustodianResource) = (entry, s1)"
    by (cases "allocator_alloc s (a C) (sizeof_CustodianEntry + sizeof_CustodianResource)")
  from read_cust_mem_cong[OF allocator_alloc_mem[OF al]] C have C1: "read_cust s1 c = Some C"
    by simp
  have e: "entry \<noteq> 0"
    using run C al custodian_abort_never_returns
    by (auto simp: custodian_defer_def)
  let ?s2 = "write_cell s1 (entry + sizeof_CustodianEntry) (ResourceCell \<lparr>ptr = h, cleanup = f\<rparr>)"
  from run C al e obtain C2 where C2: "read_cust ?s2 c = Some C2"
    and st: "set_stack (write_cell ?s2 entry (EntryCell (ptr_tag (stack C2) TAG_RESOURCE))) c entry
          = Some s'"
    by (auto simp: custodian_defer_def Let_def split: option.splits)
  from read_cust_write_res[OF C2] C2 C1 have "C2 = C" by (simp add: read_cust_write_other)
  from set_stack_Some[OF st] obtain C3 where
    C3: "read_cust (write_cell ?s2 entry (EntryCell (ptr_tag (stack C2) TAG_RESOURCE))) c = Some C3"
      "read_cust s' c = Some (C3\<lparr>stack := entry\<rparr>)" by blast
  from read_cust_write_entry[OF C3(1)] C3(1) C2 have "C3 = C2"
    by (simp add: read_cust_write_other)
  with C3(2) \<open>C2 = C\<close> show ?thesis by simp
qed

lemma keeps_child_create:
  assumes C: "read_cust s c = Some C" and run: "custodian_child_create n s c = Inr (q, s')"
    and q: "q \<noteq> c"
  shows "\<exists>C'. read_cust s' c = Some C' \<and> a C' = a C \<and> parent C' = parent C"
proof -
  obtain entry s1 where al:
    "allocator_alloc s (a C) (sizeof_CustodianEntry + sizeof_Custodian) = (entry, s1)"
    by (cases "allocator_alloc s (a C) (sizeof_CustodianEntry + sizeof_Custodian)")
  from read_cust_mem_cong[OF allocator_alloc_mem[OF al]] C have C1: "read_cust s1 c = Some C"
    by simp
  have e: "entry \<noteq> 0"
    using run C al custodian_abort_never_returns
    by (auto simp: custodian_child_create_def split: sum.splits)
  let ?s2 = "custodian_init s1 (entry + sizeof_CustodianEntry) c (a C)"
  from run C al e C1 obtain C2 where C2: "read_cust ?s2 c = Some C2"
    and st: "set_stack (write_cell ?s2 entry (EntryCell (ptr_tag (stack C2) TAG_CUSTODIAN))) c entry
          = Some s'" and qe: "q = entry + sizeof_CustodianEntry"
    by (auto simp: custodian_child_create_def Let_def split: option.splits)
  from C2 C1 q qe have "C2 = C" by (simp add: custodian_init_def read_cust_write_other)
  from set_stack_Some[OF st] obtain C3 where
    C3: "read_cust (write_cell ?s2 entry (EntryCell (ptr_tag (stack C2) TAG_CUSTODIAN))) c = Some C3"
      "read_cust s' c = Some (C3\<lparr>stack := entry\<rparr>)" by blast
  from read_cust_write_entry[OF C3(1)] C3(1) C2 have "C3 = C2"
    by (simp add: read_cust_write_other)
  with C3(2) \<open>C2 = C\<close> show ?thesis by simp
qed

lemma keeps_shutdown:
  assumes "read_cust s c = Some C" and "custodian_shutdown n s c = Inr s'"
  shows "\<exists>C'. read_cust s' c = Some C' \<and> stack C' = 0 \<and> a C' = a C \<and> parent C' = parent C"
proof -
  from assms(2) obtain m where n: "n = Suc m" by (cases n) auto
  with assms obtain s1 where "set_stack s1 c 0 = Some s'"
    by (auto split: sum.splits option.splits)
  from set_stack_Some[OF this] obtain C' where C': "read_cust s' c = Some C'" "stack C' = 0"
    by auto
  from kept_shutdown_aux(1)[of n s c] assms(2) have "custodians_kept s s'" by blast
  with C'(1) obtain C0 where "read_cust s c = Some C0" "a C' = a C0" "parent C' = parent C0"
    unfolding custodians_kept_def by blast
  with C' assms(1) show ?thesis by simp
qed

text \<open>
  C10. No operation changes the allocator or the parent of the node it is called on:
  whenever \<open>custodian_alloc\<close>, \<open>custodian_defer\<close>, \<open>custodian_child_create\<close> or
  \<open>custodian_shutdown\<close> returns, the node \<open>c\<close> is still there with both fields as
  before. For \<open>custodian_child_create\<close> the new child must not be placed on the parent
  itself, which an allocator handing out live memory could cause.
\<close>

theorem operations_keep_allocator_and_parent:
  assumes "read_cust s c = Some C"
  shows "(\<forall>n sz q s'. custodian_alloc n s c sz = Inr (q, s') \<longrightarrow>
            (\<exists>C'. read_cust s' c = Some C' \<and> a C' = a C \<and> parent C' = parent C))
       \<and> (\<forall>n h f s'. custodian_defer n s c h f = Inr s' \<longrightarrow>
            (\<exists>C'. read_cust s' c = Some C' \<and> a C' = a C \<and> parent C' = parent C))
       \<and> (\<forall>n q s'. custodian_child_create n s c = Inr (q, s') \<and> q \<noteq> c \<longrightarrow>
            (\<exists>C'. read_cust s' c = Some C' \<and> a C' = a C \<and> parent C' = parent C))
       \<and> (\<forall>n s'. custodian_shutdown n s c = Inr s' \<longrightarrow>
            (\<exists>C'. read_cust s' c = Some C' \<and> a C' = a C \<and> parent C' = parent C))"
  using keeps_alloc[OF assms] keeps_defer[OF assms] keeps_child_create[OF assms]
    keeps_shutdown[OF assms]
  by blast

theorem operations_keep_allocator_and_parent_witness:
  "(\<exists>q s' C'. custodian_alloc 0 example_state 0x100 50 = Inr (q, s')
       \<and> read_cust s' 0x100 = Some C' \<and> a C' = 0x80 \<and> parent C' = 0)
   \<and> (\<exists>s' C'. custodian_defer 0 example_state 0x100 0 0x500 = Inr s'
       \<and> read_cust s' 0x100 = Some C' \<and> a C' = 0x80 \<and> parent C' = 0)
   \<and> (\<exists>q s' C'. custodian_child_create 0 example_state 0x100 = Inr (q, s') \<and> q \<noteq> 0x100
       \<and> read_cust s' 0x100 = Some C' \<and> a C' = 0x80 \<and> parent C' = 0)
   \<and> (\<exists>s' C'. custodian_shutdown 11 example_state 0x100 = Inr s'
       \<and> read_cust s' 0x100 = Some C' \<and> a C' = 0x80 \<and> parent C' = 0)"
proof -
  note K = operations_keep_allocator_and_parent[OF example_root]
  from custodian_alloc_push[OF example_wf example_root example_resp example_fresh, of 0 50]
  obtain s1 where 1: "custodian_alloc 0 example_state 0x100 50 = Inr (0x8000 + sizeof_CustodianEntry, s1)"
    by blast
  from custodian_defer_push[OF example_wf example_root example_resp example_fresh, of 0 0 "0x500"]
  obtain s2 where 2: "custodian_defer 0 example_state 0x100 0 0x500 = Inr s2" by blast
  from custodian_child_create_push[OF example_wf example_root example_resp example_fresh, of 0]
  obtain s3 where 3: "custodian_child_create 0 example_state 0x100 = Inr (0x8000 + sizeof_CustodianEntry, s3)"
    by blast
  have q: "(0x8000 :: addr) + sizeof_CustodianEntry \<noteq> 0x100" by (simp add: sizeof_CustodianEntry_def)
  from custodian_shutdown_released[OF example_wf example_root, of 11]
  obtain s4 where 4: "custodian_shutdown 11 example_state 0x100 = Inr s4"
    by (auto simp: example_fuel)
  from K 1 have "\<exists>C'. read_cust s1 0x100 = Some C' \<and> a C' = 0x80 \<and> parent C' = 0" by fastforce
  moreover from K 2 have "\<exists>C'. read_cust s2 0x100 = Some C' \<and> a C' = 0x80 \<and> parent C' = 0" by fastforce
  moreover from K 3 q have "\<exists>C'. read_cust s3 0x100 = Some C' \<and> a C' = 0x80 \<and> parent C' = 0" by fastforce
  moreover from K 4 have "\<exists>C'. read_cust s4 0x100 = Some C' \<and> a C' = 0x80 \<and> parent C' = 0" by fastforce
  ultimately show ?thesis using 1 2 3 4 q by blast
qed

subsection \<open>Allocation failure\<close>

lemma wf_cust_mem_cong: "mem s' = mem s \<Longrightarrow> wf_cust s' c es = wf_cust s c es"
  using repr_frame[of es s' s] read_cust_mem_cong[of s' s]
  by (simp add: wf_cust_def split: option.splits)

lemma tree_custs_aux:
  "(repr_stack s al owner tp es \<longrightarrow> owner \<noteq> 0 \<longrightarrow>
      (\<forall>k. (\<forall>n\<ge>k. walk_to_root n s owner = Inr r) \<longrightarrow>
        (\<forall>x\<in>set (concat (map child_custs es)).
           (\<exists>X. read_cust s x = Some X \<and> a X = al) \<and>
           (\<forall>n\<ge>k + fuel_stack es. walk_to_root n s x = Inr r))))"
  "(repr_payload s al owner e \<longrightarrow> owner \<noteq> 0 \<longrightarrow>
      (\<forall>k. (\<forall>n\<ge>k. walk_to_root n s owner = Inr r) \<longrightarrow>
        (\<forall>x\<in>set (child_custs e).
           (\<exists>X. read_cust s x = Some X \<and> a X = al) \<and>
           (\<forall>n\<ge>k + fuel_entry e. walk_to_root n s x = Inr r))))"
proof (induction s al owner tp es and s al owner e rule: repr_stack_repr_payload.induct)
  case (2 s al owner tp e es)
  show ?case
  proof (intro impI allI ballI)
    fix k x
    assume r: "repr_stack s al owner tp (e # es)" and o: "owner \<noteq> 0"
      and w: "\<forall>n\<ge>k. walk_to_root n s owner = Inr r"
      and x: "x \<in> set (concat (map child_custs (e # es)))"
    from r obtain tagged where rd: "read_entry s tp = Some tagged"
      and pe: "repr_payload s al owner e" and re: "repr_stack s al owner (ptr_untag tagged) es"
      by (auto split: option.splits)
    from x consider "x \<in> set (child_custs e)" | "x \<in> set (concat (map child_custs es))" by auto
    then show "(\<exists>X. read_cust s x = Some X \<and> a X = al) \<and>
           (\<forall>n\<ge>k + fuel_stack (e # es). walk_to_root n s x = Inr r)"
    proof cases
      case 1
      with 2(1)[OF rd] pe o w
      have "(\<exists>X. read_cust s x = Some X \<and> a X = al) \<and>
           (\<forall>n\<ge>k + fuel_entry e. walk_to_root n s x = Inr r)" by blast
      then show ?thesis by (simp add: fuel_stack_def)
    next
      case 2
      with "2.IH"(2)[OF rd] re o w
      have "(\<exists>X. read_cust s x = Some X \<and> a X = al) \<and>
           (\<forall>n\<ge>k + fuel_stack es. walk_to_root n s x = Inr r)" by blast
      then show ?thesis by (simp add: fuel_stack_def)
    qed
  qed
next
  case (5 s al owner p ces)
  let ?c = "p + sizeof_CustodianEntry"
  show ?case
  proof (intro impI allI ballI)
    fix k x
    assume r: "repr_payload s al owner (ChildScope p ces)" and o: "owner \<noteq> 0"
      and w: "\<forall>n\<ge>k. walk_to_root n s owner = Inr r"
      and x: "x \<in> set (child_custs (ChildScope p ces))"
    from r obtain X where c0: "?c \<noteq> 0" and X: "read_cust s ?c = Some X" "a X = al"
      "parent X = owner" and rc: "repr_stack s al ?c (stack X) ces"
      by (auto split: option.splits)
    have wc: "\<forall>n\<ge>Suc k. walk_to_root n s ?c = Inr r"
    proof (intro allI impI)
      fix n assume "Suc k \<le> n"
      then obtain m where "n = Suc m" "k \<le> m" by (cases n) auto
      with X o w show "walk_to_root n s ?c = Inr r" by simp
    qed
    from x consider "x = ?c" | "x \<in> set (concat (map child_custs ces))" by auto
    then show "(\<exists>X. read_cust s x = Some X \<and> a X = al) \<and>
           (\<forall>n\<ge>k + fuel_entry (ChildScope p ces). walk_to_root n s x = Inr r)"
    proof cases
      case 1
      with X wc show ?thesis by simp
    next
      case 2
      with 5[OF X(1)] rc c0 wc
      have "(\<exists>X. read_cust s x = Some X \<and> a X = al) \<and>
           (\<forall>n\<ge>Suc k + fuel_stack ces. walk_to_root n s x = Inr r)" by blast
      then show ?thesis by (simp add: fuel_stack_def)
    qed
  qed
qed simp_all

lemma tree_custs:
  assumes wf: "wf_cust s r es" and R: "read_cust s r = Some R" and root: "parent R = 0"
    and x: "x \<in> set (custs_of r es)"
  shows "\<exists>X. read_cust s x = Some X \<and> a X = a R"
    and "fuel_stack es < n \<Longrightarrow> walk_to_root n s x = Inr r"
proof -
  from wf R have rep: "repr_stack s (a R) r (stack R) es" and r0: "r \<noteq> 0"
    by (auto simp: wf_cust_def)
  have wr: "\<forall>n\<ge>1. walk_to_root n s r = Inr r"
  proof (intro allI impI)
    fix n :: nat assume "1 \<le> n"
    then obtain m where "n = Suc m" by (cases n) auto
    with R root show "walk_to_root n s r = Inr r" by simp
  qed
  from x consider "x = r" | "x \<in> set (concat (map child_custs es))"
    by (auto simp: custs_of_def)
  then have "(\<exists>X. read_cust s x = Some X \<and> a X = a R) \<and>
     (\<forall>n\<ge>1 + fuel_stack es. walk_to_root n s x = Inr r)"
  proof cases
    case 1
    with R wr show ?thesis by simp
  next
    case 2
    with tree_custs_aux(1)[of s "a R" r "stack R" es r] rep r0 wr show ?thesis by blast
  qed
  then show "\<exists>X. read_cust s x = Some X \<and> a X = a R"
    and "fuel_stack es < n \<Longrightarrow> walk_to_root n s x = Inr r" by auto
qed

lemma alloc_fails:
  assumes "responses s = [] \<or> hd (responses s) = 0"
  shows "\<exists>s1. allocator_alloc s al sz = (0, s1) \<and> mem s1 = mem s
           \<and> trace s1 = trace s @ [EvAlloc al sz 0]"
  using assms by (cases "responses s") (auto simp: allocator_alloc_def)

lemma abort_in_tree:
  assumes wf: "wf_cust s r es" and R: "read_cust s r = Some R" and root: "parent R = 0"
    and x: "x \<in> set (custs_of r es)" and fuel: "fuel_stack es < n"
  shows "\<exists>s2. walk_to_root n s x = Inr r \<and> custodian_shutdown n s r = Inr s2
           \<and> custodian_abort n s x = Inl (Abort s2)
           \<and> trace s2 = trace s @ release_all (a R) es"
proof -
  from tree_custs(2)[OF wf R root x fuel] have w: "walk_to_root n s x = Inr r" .
  from fuel have "Suc (fuel_stack es) \<le> n" by simp
  from custodian_shutdown_released[OF wf R this] w
  show ?thesis by (simp add: custodian_abort_def write_cell_def)
qed

lemma alloc_failure_never_returns:
  assumes "responses s = [] \<or> hd (responses s) = 0"
  shows "custodian_alloc m s c sz \<noteq> Inr x"
    and "custodian_defer m s c h f \<noteq> Inr s'"
    and "custodian_child_create m s c \<noteq> Inr x"
proof -
  show "custodian_alloc m s c sz \<noteq> Inr x"
  proof (cases "read_cust s c")
    case None then show ?thesis by (simp add: custodian_alloc_def)
  next
    case (Some C)
    from alloc_fails[OF assms, of "a C" sz] obtain s1 where "allocator_alloc s (a C) sz = (0, s1)"
      by blast
    with Some show ?thesis
      by (simp add: custodian_alloc_def custodian_abort_never_returns split: sum.splits)
  qed
  show "custodian_defer m s c h f \<noteq> Inr s'"
  proof (cases "read_cust s c")
    case None then show ?thesis by (simp add: custodian_defer_def)
  next
    case (Some C)
    from alloc_fails[OF assms, of "a C" "sizeof_CustodianEntry + sizeof_CustodianResource"]
    obtain s1 where
      "allocator_alloc s (a C) (sizeof_CustodianEntry + sizeof_CustodianResource) = (0, s1)"
      by blast
    with Some show ?thesis
      by (simp add: custodian_defer_def custodian_abort_never_returns)
  qed
  show "custodian_child_create m s c \<noteq> Inr x"
  proof (cases "read_cust s c")
    case None then show ?thesis by (simp add: custodian_child_create_def)
  next
    case (Some C)
    from alloc_fails[OF assms, of "a C" "sizeof_CustodianEntry + sizeof_Custodian"]
    obtain s1 where
      "allocator_alloc s (a C) (sizeof_CustodianEntry + sizeof_Custodian) = (0, s1)"
      by blast
    with Some show ?thesis
      by (simp add: custodian_child_create_def custodian_abort_never_returns split: sum.splits)
  qed
qed

lemma abort_after_failed_alloc:
  assumes wf: "wf_cust s r es" and R: "read_cust s r = Some R" and root: "parent R = 0"
    and c: "c \<in> set (custs_of r es)"
    and fail: "responses s = [] \<or> hd (responses s) = 0"
    and fuel: "fuel_stack es < n"
  shows "\<exists>X s1 s2. read_cust s c = Some X \<and> a X = a R
           \<and> allocator_alloc s (a R) sz = (0, s1)
           \<and> walk_to_root n s1 c = Inr r \<and> custodian_shutdown n s1 r = Inr s2
           \<and> custodian_abort n s1 c = Inl (Abort s2)
           \<and> trace s2 = trace s @ [EvAlloc (a R) sz 0] @ release_all (a R) es"
proof -
  from tree_custs(1)[OF wf R root c] obtain X where X: "read_cust s c = Some X" "a X = a R"
    by blast
  from alloc_fails[OF fail, of "a R" sz] obtain s1 where
    s1: "allocator_alloc s (a R) sz = (0, s1)" "mem s1 = mem s"
      "trace s1 = trace s @ [EvAlloc (a R) sz 0]" by blast
  from wf wf_cust_mem_cong[OF s1(2)] have wf1: "wf_cust s1 r es" by simp
  from R read_cust_mem_cong[OF s1(2)] have R1: "read_cust s1 r = Some R" by simp
  from abort_in_tree[OF wf1 R1 root c fuel] X s1 show ?thesis by auto
qed

text \<open>
  C6. When the allocator returns \<open>NULL\<close> inside \<open>custodian_alloc\<close>,
  \<open>custodian_defer\<close> or \<open>custodian_child_create\<close> on a node \<open>c\<close> of a well-formed tree
  with root \<open>r\<close>, the walk along the parent links arrives at \<open>r\<close>, the root is shut
  down, and the process is terminated in the state that shutdown leaves. None of the
  three operations returns in that case, with any fuel, and \<open>custodian_abort\<close> never
  returns at all.
\<close>

theorem allocation_failure_aborts:
  assumes wf: "wf_cust s r es" and R: "read_cust s r = Some R" and root: "parent R = 0"
    and c: "c \<in> set (custs_of r es)"
    and fail: "responses s = [] \<or> hd (responses s) = 0"
    and fuel: "fuel_stack es < n"
  shows "(\<exists>s1 s2. allocator_alloc s (a R) sz = (0, s1)
            \<and> walk_to_root n s1 c = Inr r \<and> custodian_shutdown n s1 r = Inr s2
            \<and> custodian_alloc n s c sz = Inl (Abort s2))
       \<and> (\<exists>s1 s2. allocator_alloc s (a R) (sizeof_CustodianEntry + sizeof_CustodianResource) = (0, s1)
            \<and> walk_to_root n s1 c = Inr r \<and> custodian_shutdown n s1 r = Inr s2
            \<and> custodian_defer n s c h f = Inl (Abort s2))
       \<and> (\<exists>s1 s2. allocator_alloc s (a R) (sizeof_CustodianEntry + sizeof_Custodian) = (0, s1)
            \<and> walk_to_root n s1 c = Inr r \<and> custodian_shutdown n s1 r = Inr s2
            \<and> custodian_child_create n s c = Inl (Abort s2))
       \<and> (\<forall>m. (\<forall>x. custodian_alloc m s c sz \<noteq> Inr x)
              \<and> (\<forall>x. custodian_defer m s c h f \<noteq> Inr x)
              \<and> (\<forall>x. custodian_child_create m s c \<noteq> Inr x))
       \<and> (\<forall>m t x t'. custodian_abort m t x \<noteq> Inr t')"
proof (intro conjI)
  from abort_after_failed_alloc[OF assms, of sz]
  show "\<exists>s1 s2. allocator_alloc s (a R) sz = (0, s1)
            \<and> walk_to_root n s1 c = Inr r \<and> custodian_shutdown n s1 r = Inr s2
            \<and> custodian_alloc n s c sz = Inl (Abort s2)"
    by (auto simp: custodian_alloc_def)
  from abort_after_failed_alloc[OF assms, of "sizeof_CustodianEntry + sizeof_CustodianResource"]
  show "\<exists>s1 s2. allocator_alloc s (a R) (sizeof_CustodianEntry + sizeof_CustodianResource) = (0, s1)
            \<and> walk_to_root n s1 c = Inr r \<and> custodian_shutdown n s1 r = Inr s2
            \<and> custodian_defer n s c h f = Inl (Abort s2)"
    by (auto simp: custodian_defer_def)
  from abort_after_failed_alloc[OF assms, of "sizeof_CustodianEntry + sizeof_Custodian"]
  show "\<exists>s1 s2. allocator_alloc s (a R) (sizeof_CustodianEntry + sizeof_Custodian) = (0, s1)
            \<and> walk_to_root n s1 c = Inr r \<and> custodian_shutdown n s1 r = Inr s2
            \<and> custodian_child_create n s c = Inl (Abort s2)"
    by (auto simp: custodian_child_create_def)
  show "\<forall>m. (\<forall>x. custodian_alloc m s c sz \<noteq> Inr x)
              \<and> (\<forall>x. custodian_defer m s c h f \<noteq> Inr x)
              \<and> (\<forall>x. custodian_child_create m s c \<noteq> Inr x)"
    using alloc_failure_never_returns[OF fail] by blast
  show "\<forall>m t x t'. custodian_abort m t x \<noteq> Inr t'"
    by (simp add: custodian_abort_never_returns)
qed

lemma exhausted_wf: "wf_cust example_exhausted 0x100 example_entries"
  using example_wf wf_cust_mem_cong[of example_exhausted example_state]
  by (simp add: example_exhausted_def)

lemma exhausted_root:
  "read_cust example_exhausted 0x100 = Some \<lparr>stack = 0x7000, a = 0x80, parent = 0\<rparr>"
  using example_root by (simp add: example_exhausted_def read_cust_def)

lemma example_custs: "custs_of 0x100 example_entries = [0x100, 0x4008]"
  by (simp add: custs_of_def example_entries_def example_child_def example_lower_def
      sizeof_CustodianEntry_def)

theorem allocation_failure_aborts_witness:
  "\<exists>s2. custodian_alloc 11 example_exhausted 0x4008 300 = Inl (Abort s2)
        \<and> custodian_shutdown 11
             (example_exhausted\<lparr>trace := [EvAlloc 0x80 300 0]\<rparr>) 0x100 = Inr s2"
  using allocation_failure_aborts[OF exhausted_wf exhausted_root, of "0x4008" 11 300 0 0]
  by (auto simp: example_custs example_fuel example_exhausted_def allocator_alloc_def example_state_def)

section \<open>Properties of the runner\<close>

subsection \<open>Classification of the wait status\<close>

lemma lines_acc_append:
  "newline \<notin> set t \<Longrightarrow> lines_acc cur (t @ rest) = lines_acc (cur @ t) rest"
  by (induction t arbitrary: cur) auto

lemma lines_acc_line:
  "newline \<notin> set t \<Longrightarrow> lines_acc cur (t @ newline # rest) = (cur @ t) # lines_acc [] rest"
  by (simp add: lines_acc_append)

lemma fgets_chunk_shape:
  "fgets_chunk k inp = (ln, rest) \<Longrightarrow> newline \<notin> set (butlast ln)"
proof (induction k inp arbitrary: ln rest rule: fgets_chunk.induct)
  case (3 k x inp)
  show ?case
  proof (cases "x = newline")
    case True with 3(2) show ?thesis by auto
  next
    case False
    obtain l r where lr: "fgets_chunk k inp = (l, r)" by (cases "fgets_chunk k inp")
    with 3(2) False have ln: "ln = x # l" by simp
    from 3(1)[OF False lr] have "newline \<notin> set (butlast l)" .
    with False ln show ?thesis by (cases l) auto
  qed
qed auto

lemma c_str_shape:
  assumes "newline \<notin> set (butlast ln)"
  shows "newline \<notin> set (butlast (c_str ln))"
proof -
  obtain r where ln: "ln = c_str ln @ r"
    unfolding c_str_def by (metis takeWhile_dropWhile_id)
  show ?thesis
  proof (cases "r = []")
    case True with ln assms show ?thesis by simp
  next
    case False
    with ln have "set (c_str ln) \<subseteq> set (butlast ln)"
      by (metis butlast_append set_append Un_upper1)
    with assms show ?thesis by (meson in_set_butlastD subsetD)
  qed
qed

lemma last_line_char:
  "0 < length t \<Longrightarrow> t ! (length t - 1) = last t"
  by (cases t rule: rev_cases) auto

lemma take3_append: "take 3 cur = ''#: '' \<Longrightarrow> take 3 (cur @ t) = ''#: ''"
  by (cases cur; cases "tl cur"; cases "tl (tl cur)") auto

lemma diag_loop_lines:
  "(if fresh then cur = [] else take 3 cur = ''#: '') \<Longrightarrow>
   \<forall>l\<in>set (lines_acc cur (diag_loop fresh inp)). take 3 l = ''#: ''"
proof (induction fresh inp arbitrary: cur rule: diag_loop.induct)
  case (1 fresh inp)
  show ?case
  proof (cases "fgets BUFLEN inp")
    case None
    with 1(4) show ?thesis
      by (subst diag_loop.simps) (auto split: if_splits)
  next
    case (Some pr)
    obtain line_buf rest where pr: "pr = (line_buf, rest)" by (cases pr)
    let ?t = "c_str line_buf"
    let ?pre = "if fresh then ''#: '' else []"
    let ?cur = "cur @ ?pre @ ?t"
    from Some pr have "fgets_chunk (BUFLEN - 1) inp = (line_buf, rest)"
      by (auto simp: fgets_def split: if_splits)
    from c_str_shape[OF fgets_chunk_shape[OF this]]
    have shape: "newline \<notin> set (butlast ?t)" .
    have start: "take 3 (cur @ ?pre) = ''#: ''"
      using 1(4) by (auto simp: take3_append)
    have prenl: "newline \<notin> set ?pre" by (simp add: newline_def)
    show ?thesis
    proof (cases "0 < length ?t \<and> ?t ! (length ?t - 1) = newline")
      case True
      then obtain t' where t': "?t = t' @ [newline]"
        by (metis last_line_char append_butlast_last_id length_greater_0_conv)
      with shape have nl: "newline \<notin> set (?pre @ t')" using prenl by simp
      have out: "diag_loop fresh inp = (?pre @ t') @ newline # diag_loop True rest"
        using Some pr True t' by (subst diag_loop.simps) simp
      from 1(1)[OF Some pr[symmetric] True, of "[]"]
      have IH: "\<forall>l\<in>set (lines_acc [] (diag_loop True rest)). take 3 l = ''#: ''" by simp
      have "take 3 (cur @ ?pre @ t') = ''#: ''"
        using take3_append[OF start, of t'] by simp
      with IH show ?thesis
        unfolding out lines_acc_line[OF nl] by simp
    next
      case False
      with shape have nl: "newline \<notin> set (?pre @ ?t)"
        using prenl by (cases ?t rule: rev_cases) (auto simp: last_line_char)
      have first: "take 3 (cur @ ?pre @ ?t) = ''#: ''"
        using take3_append[OF start, of ?t] by simp
      show ?thesis
      proof (cases "length ?t < BUFLEN - 1")
        case True
        have out: "diag_loop fresh inp = (?pre @ ?t) @ newline # diag_loop True rest"
          using Some pr False True by (subst diag_loop.simps) auto
        from 1(2)[OF Some pr[symmetric] False True, of "[]"]
        have IH: "\<forall>l\<in>set (lines_acc [] (diag_loop True rest)). take 3 l = ''#: ''" by simp
        with first show ?thesis
          unfolding out lines_acc_line[OF nl] by simp
      next
        case notshort: False
        have out: "diag_loop fresh inp = (?pre @ ?t) @ diag_loop False rest"
          using Some pr False notshort by (subst diag_loop.simps) auto
        from 1(3)[OF Some pr[symmetric] False notshort, of "cur @ ?pre @ ?t"] first
        have IH: "\<forall>l\<in>set (lines_acc (cur @ ?pre @ ?t) (diag_loop False rest)). take 3 l = ''#: ''"
          by simp
        then show ?thesis
          unfolding out lines_acc_append[OF nl] by simp
      qed
    qed
  qed
qed

lemma digit_not_newline: "n < 10 \<Longrightarrow> ''0123456789'' ! n \<noteq> newline"
proof -
  assume "n < 10"
  then have "''0123456789'' ! n \<in> set ''0123456789''" by (intro nth_mem) simp
  then show ?thesis by (auto simp: newline_def)
qed

lemma show_nat_no_newline: "newline \<notin> set (show_nat n)"
proof (induction n rule: show_nat.induct)
  case (1 n)
  show ?case
  proof (cases "n < 10")
    case True
    then show ?thesis using digit_not_newline[of n] by (subst show_nat.simps) simp
  next
    case False
    have "n mod 10 < 10" by simp
    from digit_not_newline[OF this] 1[OF False] False show ?thesis
      by (subst show_nat.simps) simp
  qed
qed

lemma show_int_no_newline: "newline \<notin> set (show_int i)"
proof -
  have "CHR ''-'' \<noteq> newline" by (simp add: newline_def)
  then show ?thesis by (simp add: show_int_def show_nat_no_newline)
qed

lemma lines_of_first:
  "newline \<notin> set t \<Longrightarrow> lines_of (t @ newline # rest) = t # lines_of rest"
  by (simp add: lines_of_def lines_acc_line)

lemma diagnostics_lines:
  "\<forall>l\<in>set (lines_of (case capture of None \<Rightarrow> [] | Some inp \<Rightarrow> diag_loop True inp)).
     take 3 l = ''#: ''"
  using diag_loop_lines[of True "[]"] by (cases capture) (simp_all add: lines_of_def)

lemma lines_of_Nil [simp]: "lines_of [] = []"
  by (simp add: lines_of_def)

lemma literal_no_newline:
  "newline \<notin> set ''ok ''" "newline \<notin> set ''not ok ''" "newline \<notin> set '' - ''"
  "newline \<notin> set '' (''" "newline \<notin> set '')''"
  "newline \<notin> set ''exit code: ''" "newline \<notin> set ''timeout after 10s''"
  "newline \<notin> set ''killed by signal ''" "newline \<notin> set ''unknown failure''"
  by (simp_all add: newline_def)

lemma not_ok_line_shape:
  "not_ok_line i display reason @ diag
     = (''not ok '' @ show_nat i @ '' - '' @ display @ '' ('' @ reason @ '')'') @ newline # diag"
  by (simp add: not_ok_line_def)

lemma not_ok_line_no_newline:
  assumes "newline \<notin> set display" and "newline \<notin> set reason"
  shows "newline \<notin> set (''not ok '' @ show_nat i @ '' - '' @ display @ '' ('' @ reason @ '')'')"
  using assms literal_no_newline show_nat_no_newline[of i] by simp

text \<open>
  C7. The parent prints one result line for the test and classifies the wait status
  as follows: exit with status 0 gives \<open>ok i - display\<close>; exit with another status
  \<open>n\<close> gives \<open>not ok i - display (exit code: n)\<close>; death by \<open>SIGALRM\<close>, the
  watchdog's signal, gives \<open>(timeout after 10s)\<close>; death by another signal \<open>n\<close> gives
  \<open>(killed by signal n)\<close>; anything else \<open>(unknown failure)\<close>. The code asks
  \<open>WIFEXITED\<close> first, so the signal cases are those of a status that is not an exit.
  The output is that line, a newline, and the diagnostics, and every line of the
  diagnostics begins with \<open>#: \<close>: the result line is the only one. The display
  string is that of a test name, without a newline in it.
\<close>

theorem report_classifies_wait_status:
  assumes "newline \<notin> set display"
  shows "\<exists>line diag.
      report W i display status capture = line @ newline # diag
    \<and> lines_of (report W i display status capture) = line # lines_of diag
    \<and> (\<forall>l\<in>set (lines_of diag). take 3 l = ''#: '')
    \<and> (WIFEXITED W status \<and> WEXITSTATUS W status = 0 \<longrightarrow>
         line = ''ok '' @ show_nat i @ '' - '' @ display \<and> diag = [])
    \<and> (WIFEXITED W status \<and> WEXITSTATUS W status \<noteq> 0 \<longrightarrow>
         line = ''not ok '' @ show_nat i @ '' - '' @ display
                @ '' ('' @ (''exit code: '' @ show_int (WEXITSTATUS W status)) @ '')'')
    \<and> (\<not> WIFEXITED W status \<and> WIFSIGNALED W status \<and> WTERMSIG W status = SIGALRM W \<longrightarrow>
         line = ''not ok '' @ show_nat i @ '' - '' @ display @ '' ('' @ ''timeout after 10s'' @ '')'')
    \<and> (\<not> WIFEXITED W status \<and> WIFSIGNALED W status \<and> WTERMSIG W status \<noteq> SIGALRM W \<longrightarrow>
         line = ''not ok '' @ show_nat i @ '' - '' @ display
                @ '' ('' @ (''killed by signal '' @ show_int (WTERMSIG W status)) @ '')'')
    \<and> (\<not> WIFEXITED W status \<and> \<not> WIFSIGNALED W status \<longrightarrow>
         line = ''not ok '' @ show_nat i @ '' - '' @ display @ '' ('' @ ''unknown failure'' @ '')'')"
proof -
  let ?diag = "case capture of None \<Rightarrow> [] | Some inp \<Rightarrow> diag_loop True inp"
  let ?no = "\<lambda>reason. ''not ok '' @ show_nat i @ '' - '' @ display @ '' ('' @ reason @ '')''"
  have dl: "\<forall>l\<in>set (lines_of ?diag). take 3 l = ''#: ''" by (rule diagnostics_lines)
  consider (ok) "WIFEXITED W status \<and> WEXITSTATUS W status = 0"
    | (code) "WIFEXITED W status \<and> WEXITSTATUS W status \<noteq> 0"
    | (alarm) "\<not> WIFEXITED W status \<and> WIFSIGNALED W status \<and> WTERMSIG W status = SIGALRM W"
    | (sig) "\<not> WIFEXITED W status \<and> WIFSIGNALED W status \<and> WTERMSIG W status \<noteq> SIGALRM W"
    | (other) "\<not> WIFEXITED W status \<and> \<not> WIFSIGNALED W status"
    by blast
  then show ?thesis
  proof cases
    case ok
    let ?line = "''ok '' @ show_nat i @ '' - '' @ display"
    have nl: "newline \<notin> set ?line"
      using assms literal_no_newline show_nat_no_newline[of i] by simp
    have r: "report W i display status capture = ?line @ newline # []"
      using ok by (simp add: report_def ok_line_def)
    show ?thesis
      by (rule exI[of _ ?line], rule exI[of _ "[]"]) (use ok r lines_of_first[OF nl, of "[]"] in simp)
  next
    case code
    let ?reason = "''exit code: '' @ show_int (WEXITSTATUS W status)"
    have rn: "newline \<notin> set ?reason"
      using literal_no_newline show_int_no_newline by simp
    note sh = not_ok_line_shape[of i display ?reason ?diag]
      not_ok_line_no_newline[OF assms rn, of i]
    have r: "report W i display status capture = ?no ?reason @ newline # ?diag"
      using code sh(1) by (simp add: report_def)
    show ?thesis
      by (rule exI[of _ "?no ?reason"], rule exI[of _ ?diag])
         (use code r dl lines_of_first[OF sh(2), of ?diag] in simp)
  next
    case alarm
    let ?reason = "''timeout after 10s''"
    have rn: "newline \<notin> set ?reason" using literal_no_newline by simp
    note sh = not_ok_line_shape[of i display ?reason ?diag]
      not_ok_line_no_newline[OF assms rn, of i]
    have r: "report W i display status capture = ?no ?reason @ newline # ?diag"
      using alarm sh(1) by (simp add: report_def)
    show ?thesis
      by (rule exI[of _ "?no ?reason"], rule exI[of _ ?diag])
         (use alarm r dl lines_of_first[OF sh(2), of ?diag] in simp)
  next
    case sig
    let ?reason = "''killed by signal '' @ show_int (WTERMSIG W status)"
    have rn: "newline \<notin> set ?reason"
      using literal_no_newline show_int_no_newline by simp
    note sh = not_ok_line_shape[of i display ?reason ?diag]
      not_ok_line_no_newline[OF assms rn, of i]
    have r: "report W i display status capture = ?no ?reason @ newline # ?diag"
      using sig sh(1) by (simp add: report_def)
    show ?thesis
      by (rule exI[of _ "?no ?reason"], rule exI[of _ ?diag])
         (use sig r dl lines_of_first[OF sh(2), of ?diag] in simp)
  next
    case other
    let ?reason = "''unknown failure''"
    have rn: "newline \<notin> set ?reason" using literal_no_newline by simp
    note sh = not_ok_line_shape[of i display ?reason ?diag]
      not_ok_line_no_newline[OF assms rn, of i]
    have r: "report W i display status capture = ?no ?reason @ newline # ?diag"
      using other sh(1) by (simp add: report_def)
    show ?thesis
      by (rule exI[of _ "?no ?reason"], rule exI[of _ ?diag])
         (use other r dl lines_of_first[OF sh(2), of ?diag] in simp)
  qed
qed

theorem report_classifies_wait_status_witness:
  "report example_wait_macros 2 ''test_add(2, 3, 5)'' 0 (Some ''stray output'')
     = ''ok 2 - test_add(2, 3, 5)'' @ [newline]
   \<and> (\<exists>diag. report example_wait_macros 4 ''test_add(2, 3, 6)'' 256 (Some ''one'')
         = ''not ok 4 - test_add(2, 3, 6) (exit code: 1)'' @ newline # diag
        \<and> (\<forall>l\<in>set (lines_of diag). take 3 l = ''#: ''))
   \<and> (\<exists>diag. report example_wait_macros 4 ''test_add(2, 3, 6)'' 14 (Some ''two'')
         = ''not ok 4 - test_add(2, 3, 6) (timeout after 10s)'' @ newline # diag
        \<and> (\<forall>l\<in>set (lines_of diag). take 3 l = ''#: ''))
   \<and> (\<exists>diag. report example_wait_macros 4 ''test_add(2, 3, 6)'' 6 (Some ''three'')
         = ''not ok 4 - test_add(2, 3, 6) (killed by signal 6)'' @ newline # diag
        \<and> (\<forall>l\<in>set (lines_of diag). take 3 l = ''#: ''))
   \<and> (\<exists>diag. report example_wait_macros 4 ''test_add(2, 3, 6)'' 127 (Some ''four'')
         = ''not ok 4 - test_add(2, 3, 6) (unknown failure)'' @ newline # diag
        \<and> (\<forall>l\<in>set (lines_of diag). take 3 l = ''#: ''))"
proof -
  have d5: "newline \<notin> set ''test_add(2, 3, 5)''" and d6: "newline \<notin> set ''test_add(2, 3, 6)''"
    by (simp_all add: newline_def)
  note ev = example_wait_macros_def show_nat.simps show_int_def
  from report_classifies_wait_status[OF d5, of example_wait_macros 2 0 "Some ''stray output''"]
  have 1: "report example_wait_macros 2 ''test_add(2, 3, 5)'' 0 (Some ''stray output'')
     = ''ok 2 - test_add(2, 3, 5)'' @ [newline]"
    by (auto simp: ev)
  from report_classifies_wait_status[OF d6, of example_wait_macros 4 256 "Some ''one''"]
  have 2: "\<exists>diag. report example_wait_macros 4 ''test_add(2, 3, 6)'' 256 (Some ''one'')
         = ''not ok 4 - test_add(2, 3, 6) (exit code: 1)'' @ newline # diag
        \<and> (\<forall>l\<in>set (lines_of diag). take 3 l = ''#: '')"
    by (auto simp: ev)
  from report_classifies_wait_status[OF d6, of example_wait_macros 4 14 "Some ''two''"]
  have 3: "\<exists>diag. report example_wait_macros 4 ''test_add(2, 3, 6)'' 14 (Some ''two'')
         = ''not ok 4 - test_add(2, 3, 6) (timeout after 10s)'' @ newline # diag
        \<and> (\<forall>l\<in>set (lines_of diag). take 3 l = ''#: '')"
    by (auto simp: ev)
  from report_classifies_wait_status[OF d6, of example_wait_macros 4 6 "Some ''three''"]
  have 4: "\<exists>diag. report example_wait_macros 4 ''test_add(2, 3, 6)'' 6 (Some ''three'')
         = ''not ok 4 - test_add(2, 3, 6) (killed by signal 6)'' @ newline # diag
        \<and> (\<forall>l\<in>set (lines_of diag). take 3 l = ''#: '')"
    by (auto simp: ev)
  from report_classifies_wait_status[OF d6, of example_wait_macros 4 127 "Some ''four''"]
  have 5: "\<exists>diag. report example_wait_macros 4 ''test_add(2, 3, 6)'' 127 (Some ''four'')
         = ''not ok 4 - test_add(2, 3, 6) (unknown failure)'' @ newline # diag
        \<and> (\<forall>l\<in>set (lines_of diag). take 3 l = ''#: '')"
    by (auto simp: ev)
  from 1 2 3 4 5 show ?thesis by blast
qed

subsection \<open>Replay of the capture file\<close>

lemma diag_loop_eof: "diag_loop fresh []  = []"
  by (subst diag_loop.simps) (simp add: fgets_def)

lemma fgets_chunk_replicate:
  "c \<noteq> newline \<Longrightarrow> fgets_chunk k (replicate k c) = (replicate k c, [])"
  by (induction k) simp_all

lemma fgets_chunk_cases:
  "fgets_chunk k inp = (ln, rest) \<Longrightarrow>
   inp = ln @ rest \<and> newline \<notin> set (butlast ln) \<and> length ln \<le> k \<and>
   ((ln \<noteq> [] \<and> last ln = newline) \<or> length ln = k \<or> rest = [])"
proof (induction k inp arbitrary: ln rest rule: fgets_chunk.induct)
  case (3 k x inp)
  show ?case
  proof (cases "x = newline")
    case True with 3(2) show ?thesis by auto
  next
    case False
    obtain l r where lr: "fgets_chunk k inp = (l, r)" by (cases "fgets_chunk k inp")
    with 3(2) False have ln: "ln = x # l" "rest = r" by simp_all
    from 3(1)[OF False lr] False ln show ?thesis by (cases l) auto
  qed
qed auto

lemma fgets_chunk_nonempty:
  "fgets_chunk k inp = (ln, rest) \<Longrightarrow> 0 < k \<Longrightarrow> inp \<noteq> [] \<Longrightarrow> ln \<noteq> []"
  by (cases k; cases inp) (auto split: if_splits prod.splits)

lemma c_str_no_nul: "CHR 0x00 \<notin> set ln \<Longrightarrow> c_str ln = ln"
  by (auto simp: c_str_def)

lemma prefixed_from_nonempty: "prefixed_from fresh inp = [] \<longleftrightarrow> fresh \<and> inp = []"
  by (cases inp) auto

lemma prefixed_from_plain:
  "newline \<notin> set t \<Longrightarrow> prefixed_from False (t @ rest) = t @ prefixed_from False rest"
  by (induction t) auto

lemma prefixed_from_plain_fresh:
  "newline \<notin> set t \<Longrightarrow> t \<noteq> [] \<Longrightarrow> 
   prefixed_from True (t @ rest) = ''#: '' @ t @ prefixed_from False rest"
  by (cases t) (auto simp: prefixed_from_plain)

lemma prefixed_from_line:
  "newline \<notin> set t \<Longrightarrow>
   prefixed_from fresh (t @ newline # rest)
     = (if fresh then ''#: '' else []) @ t @ newline # prefixed_from True rest"
  by (cases t) (auto simp: prefixed_from_plain)

lemma newline_lost_plain:
  "newline \<notin> set t \<Longrightarrow> newline_lost col (t @ rest) = newline_lost (col + length t) rest"
  by (induction t arbitrary: col) auto

lemma newline_lost_line:
  "newline \<notin> set t \<Longrightarrow> newline_lost col (t @ newline # rest) = newline_lost 0 rest"
  by (simp add: newline_lost_plain)

lemma newline_lost_nonempty: "newline_lost 0 inp \<Longrightarrow> inp \<noteq> []"
  by auto

lemma diag_loop_replays_from:
  "CHR 0x00 \<notin> set inp \<Longrightarrow> (fresh \<longleftrightarrow> col = 0) \<Longrightarrow> col mod (BUFLEN - 1) = 0 \<Longrightarrow>
   diag_loop fresh inp
     = (if newline_lost col inp then butlast (prefixed_from fresh inp)
        else prefixed_from fresh inp)"
proof (induction fresh inp arbitrary: col rule: diag_loop.induct)
  case (1 fresh inp)
  let ?pre = "if fresh then ''#: '' else []"
  show ?case
  proof (cases "inp = []")
    case True
    with 1(5,6) show ?thesis by (auto simp: diag_loop_eof)
  next
    case False
    obtain ln rest where ch: "fgets_chunk (BUFLEN - 1) inp = (ln, rest)"
      by (cases "fgets_chunk (BUFLEN - 1) inp")
    with False have fg: "fgets BUFLEN inp = Some (ln, rest)" by (simp add: fgets_def)
    from fgets_chunk_cases[OF ch] have inp: "inp = ln @ rest"
      and shape: "newline \<notin> set (butlast ln)" and len: "length ln \<le> BUFLEN - 1"
      and stop: "(ln \<noteq> [] \<and> last ln = newline) \<or> length ln = BUFLEN - 1 \<or> rest = []"
      by auto
    from inp 1(4) have nul: "CHR 0x00 \<notin> set ln" "CHR 0x00 \<notin> set rest" by auto
    have cstr: "c_str ln = ln" by (rule c_str_no_nul[OF nul(1)])
    have lnne: "ln \<noteq> []"
      using fgets_chunk_nonempty[OF ch _ False] by (simp add: BUFLEN_def)
    show ?thesis
    proof (cases "last ln = newline")
      case True
      with lnne obtain t where t: "ln = t @ [newline]" by (metis append_butlast_last_id)
      with shape have nl: "newline \<notin> set t" by simp
      have A: "0 < length (c_str ln) \<and> c_str ln ! (length (c_str ln) - 1) = newline"
        using t cstr by (simp add: nth_append)
      have out: "diag_loop fresh inp = ?pre @ t @ newline # diag_loop True rest"
        using fg A cstr t by (subst diag_loop.simps) simp
      from 1(1)[OF fg refl A nul(2), of 0]
      have IH: "diag_loop True rest
         = (if newline_lost 0 rest then butlast (prefixed_from True rest)
            else prefixed_from True rest)" by simp
      have sp: "prefixed_from fresh inp = ?pre @ t @ newline # prefixed_from True rest"
        using inp t prefixed_from_line[OF nl, of fresh rest] by simp
      have lost: "newline_lost col inp = newline_lost 0 rest"
        using inp t newline_lost_line[OF nl, of col rest] by simp
      show ?thesis
      proof (cases "newline_lost 0 rest")
        case True
        then have "prefixed_from True rest \<noteq> []"
          using newline_lost_nonempty prefixed_from_nonempty by blast
        then have "butlast (?pre @ t @ newline # prefixed_from True rest)
             = ?pre @ t @ newline # butlast (prefixed_from True rest)"
          by (simp add: butlast_append)
        with out IH sp lost True show ?thesis by simp
      next
        case False
        with out IH sp lost show ?thesis by simp
      qed
    next
      case notnl: False
      with shape lnne have nl: "newline \<notin> set ln"
        by (metis append_butlast_last_id rotate1.simps(2) set_ConsD set_rotate1)
      have notA: "\<not> (0 < length (c_str ln) \<and> c_str ln ! (length (c_str ln) - 1) = newline)"
        using notnl cstr lnne by (simp add: last_conv_nth)
      show ?thesis
      proof (cases "length ln < BUFLEN - 1")
        case True
        with stop notnl have rest: "rest = []" by auto
        have B: "length (c_str ln) < BUFLEN - 1" using True cstr by simp
        have out: "diag_loop fresh inp = ?pre @ ln @ [newline]"
          using fg notA B cstr rest by (subst diag_loop.simps) (auto simp: diag_loop_eof)
        have sp: "prefixed_from fresh inp = ?pre @ ln @ [newline]"
          using inp rest lnne nl prefixed_from_plain[OF nl, of "[]"]
            prefixed_from_plain_fresh[OF nl lnne, of "[]"]
          by (cases fresh) simp_all
        have "newline_lost col inp = newline_lost (col + length ln) []"
          using inp rest newline_lost_plain[OF nl, of col "[]"] by simp
        moreover have "(col + length ln) mod (BUFLEN - 1) \<noteq> 0"
          using 1(6) True lnne by (simp add: mod_add_left_eq[symmetric])
        ultimately have "\<not> newline_lost col inp" by simp
        with out sp show ?thesis by simp
      next
        case full: False
        with len have l: "length ln = BUFLEN - 1" by simp
        have notB: "\<not> length (c_str ln) < BUFLEN - 1" using full cstr by simp
        have out: "diag_loop fresh inp = ?pre @ ln @ diag_loop False rest"
          using fg notA notB cstr by (subst diag_loop.simps) auto
        have col': "(False \<longleftrightarrow> col + length ln = 0)" "(col + length ln) mod (BUFLEN - 1) = 0"
          using lnne 1(6) l by (simp_all add: mod_add_left_eq[symmetric] BUFLEN_def)
        from 1(3)[OF fg refl notA notB nul(2) col']
        have IH: "diag_loop False rest
           = (if newline_lost (col + length ln) rest then butlast (prefixed_from False rest)
              else prefixed_from False rest)" .
        have sp: "prefixed_from fresh inp = ?pre @ ln @ prefixed_from False rest"
          using inp prefixed_from_plain[OF nl, of rest] prefixed_from_plain_fresh[OF nl lnne, of rest]
          by (cases fresh) simp_all
        have lost: "newline_lost col inp = newline_lost (col + length ln) rest"
          using inp newline_lost_plain[OF nl, of col rest] by simp
        have "prefixed_from False rest \<noteq> []" by (simp add: prefixed_from_nonempty)
        then have "butlast (?pre @ ln @ prefixed_from False rest)
             = ?pre @ ln @ butlast (prefixed_from False rest)"
          by (simp add: butlast_append)
        with out IH sp lost show ?thesis by simp
      qed
    qed
  qed
qed

text \<open>
  On a capture file without NUL bytes the loop prints what the specification asks for,
  except that the closing newline is missing when \<open>newline_lost\<close> holds.
\<close>

lemma diag_loop_replays:
  "CHR 0x00 \<notin> set inp \<Longrightarrow>
   diag_loop True inp
     = (if newline_lost 0 inp then butlast (prefixed_from True inp)
        else prefixed_from True inp)"
  by (rule diag_loop_replays_from) simp_all

text \<open>
  C8. A capture file that ends without a newline should get one synthesized. The loop
  takes a chunk that fills the buffer (1023 bytes) for the middle of a longer line, so
  when the file ends exactly there, nothing is added: 1023 bytes \<open>a\<close> are replayed as
  the prefix and the 1023 bytes, with no newline after them, where the specification
  asks for one.
\<close>

theorem diag_loop_no_newline_at_full_buffer:
  "report example_wait_macros 1 ''test_program()'' 256 (Some (replicate 1023 CHR ''a''))
     = ''not ok 1 - test_program() (exit code: 1)'' @ [newline]
       @ ''#: '' @ replicate 1023 CHR ''a''
   \<and> prefixed_from True (replicate 1023 CHR ''a'')
     = ''#: '' @ replicate 1023 CHR ''a'' @ [newline]"
proof -
  have 1: "fgets BUFLEN (replicate 1023 CHR ''a'') = Some (replicate 1023 CHR ''a'', [])"
    using fgets_chunk_replicate[of "CHR ''a''" 1023]
    by (simp add: fgets_def BUFLEN_def newline_def)
  have 2: "c_str (replicate 1023 CHR ''a'') = replicate 1023 CHR ''a''"
    by (simp add: c_str_def)
  have 3: "diag_loop True (replicate 1023 CHR ''a'') = ''#: '' @ replicate 1023 CHR ''a''"
    by (subst diag_loop.simps, simp only: 1 2 option.case prod.case)
       (simp add: diag_loop_eof BUFLEN_def newline_def)
  have 4: "prefixed_from True (replicate 1023 CHR ''a'' @ [])
             = ''#: '' @ replicate 1023 CHR ''a'' @ prefixed_from False []"
    by (rule prefixed_from_plain_fresh) (simp_all add: newline_def)
  from 3 4 show ?thesis
    by (simp add: report_def not_ok_line_def show_int_def show_nat.simps example_wait_macros_def)
qed

end
